theory Spec2Isabelle
  imports Complex_Main "HOL-Library.Multiset"
begin

section \<open>Data model of the flow chart editor\<close>

text \<open>
  The editor keeps a list of nodes and a list of edges (React Flow elements). A missing
  string property (\<^verbatim>\<open>undefined\<close>) and the empty string are both falsy in JavaScript and
  are both written \<open>''''\<close> here; a missing \<^verbatim>\<open>user_modified\<close> flag is \<open>False\<close>. Purely
  presentational properties (style, markerEnd, labelStyle, ...) are left out. Coordinates
  are real numbers.
\<close>

text \<open>A connection handle: the property may be absent, \<^verbatim>\<open>null\<close> or the id of a port.
  Equality of this type is JavaScript's \<^verbatim>\<open>===\<close> on such values.\<close>

datatype handle = Absent | Null | Port string

record node_data =
  label :: string
  data_id :: string
  logical_id :: string
  owner :: string
  system :: string
  manualOrAutomated :: string
  data_type :: string
  user_modified :: bool

record node =
  node_id :: string
  node_type :: string
  position :: "real \<times> real"
  data :: node_data

record edge =
  edge_id :: string
  source :: string
  target :: string
  sourceHandle :: handle
  targetHandle :: handle
  edge_label :: string

text \<open>The parameters React Flow passes to \<^verbatim>\<open>onConnect\<close> and \<^verbatim>\<open>onReconnect\<close>.\<close>

record connection =
  conn_source :: string
  conn_target :: string
  conn_sourceHandle :: handle
  conn_targetHandle :: handle

text \<open>JavaScript's \<^verbatim>\<open>a || b\<close> on strings: the empty (or missing) string is falsy.\<close>

definition js_or :: "string \<Rightarrow> string \<Rightarrow> string" where
  "js_or a b = (if a = [] then b else a)"

section \<open>Logical numbering\<close>

text \<open>The decimal digits of a number, as the template literal \<^verbatim>\<open>`1.1.1.${counter}`\<close>
  prints them.\<close>

definition digit_char :: "nat \<Rightarrow> char" where
  "digit_char d = ''0123456789'' ! d"

fun string_of_nat :: "nat \<Rightarrow> string" where
  "string_of_nat n =
     (if n < 10 then [digit_char n] else string_of_nat (n div 10) @ [digit_char (n mod 10)])"

declare string_of_nat.simps [simp del]

text \<open>\<^verbatim>\<open>nodeMap\<close>: filled in list order, so a later node with the same id replaces an
  earlier one. (Here and for \<^verbatim>\<open>adjacency\<close> below, ids are assumed not to be names of
  properties that every JavaScript object inherits, such as \<^verbatim>\<open>constructor\<close>.)\<close>

definition nodeMap_of :: "node list \<Rightarrow> (string \<rightharpoonup> node)" where
  "nodeMap_of nodes = fold (\<lambda>n m. m(node_id n \<mapsto> n)) nodes Map.empty"

text \<open>\<^verbatim>\<open>adjacency\<close>: the targets of the edges that leave a node, in edge order.\<close>

definition adjacency_of :: "edge list \<Rightarrow> (string \<rightharpoonup> string list)" where
  "adjacency_of edges =
     fold (\<lambda>e adj. adj(source e \<mapsto>
                       (case adj (source e) of None \<Rightarrow> [] | Some ts \<Rightarrow> ts) @ [target e]))
       edges Map.empty"

text \<open>The variables the traversal closure updates.\<close>

record traversal =
  visited :: "string set"
  updatedNodes :: "node list"
  counter :: nat

definition keeps_logical_id :: "string \<Rightarrow> bool" where
  "keeps_logical_id nodeType \<longleftrightarrow>
     nodeType = ''start'' \<or> nodeType = ''end'' \<or> nodeType = ''decision'' \<or> nodeType = ''merge''"

text \<open>The body shared by the traversal and by the loop over the unvisited nodes: copy the
  node, set its \<^verbatim>\<open>logical_id\<close>, push it.\<close>

definition push_numbered :: "node \<Rightarrow> traversal \<Rightarrow> traversal" where
  "push_numbered n tr =
     (if keeps_logical_id (node_type n)
      then tr\<lparr>updatedNodes := updatedNodes tr
                @ [n\<lparr>data := (data n)\<lparr>logical_id := js_or (logical_id (data n)) []\<rparr>\<rparr>]\<rparr>
      else tr\<lparr>updatedNodes := updatedNodes tr
                @ [n\<lparr>data := (data n)\<lparr>logical_id := ''1.1.1.'' @ string_of_nat (counter tr)\<rparr>\<rparr>],
              counter := counter tr + 1\<rparr>)"

text \<open>
  \<^verbatim>\<open>ids.forEach(id => traverseFlow(id))\<close>. The second equation runs \<^verbatim>\<open>traverseFlow(nodeId)\<close>,
  which returns at once on a visited or unknown id and otherwise visits the node and runs
  the same loop over its adjacency list, and then goes on with the rest of the loop.
\<close>

function traverseFlow_forEach ::
  "node list \<Rightarrow> edge list \<Rightarrow> string list \<Rightarrow> traversal \<Rightarrow> traversal" where
  "traverseFlow_forEach nodes edges [] tr = tr"
| "traverseFlow_forEach nodes edges (nodeId # rest) tr =
     traverseFlow_forEach nodes edges rest
       (if nodeId \<in> visited tr then tr
        else case nodeMap_of nodes nodeId of
          None \<Rightarrow> tr
        | Some n \<Rightarrow>
            traverseFlow_forEach nodes edges
              (case adjacency_of edges nodeId of None \<Rightarrow> [] | Some ts \<Rightarrow> ts)
              (push_numbered n (tr\<lparr>visited := insert nodeId (visited tr)\<rparr>)))"
  by pat_completeness auto

lemma visited_push_numbered [simp]: "visited (push_numbered n tr) = visited tr"
  by (simp add: push_numbered_def)

lemma dom_nodeMap_of: "dom (nodeMap_of nodes) = node_id ` set nodes"
proof -
  have "dom (fold (\<lambda>n m. m(node_id n \<mapsto> n)) nodes m0) = dom m0 \<union> node_id ` set nodes" for m0
    by (induction nodes arbitrary: m0) auto
  then show ?thesis by (simp add: nodeMap_of_def)
qed

lemma traverseFlow_forEach_visited_mono:
  "traverseFlow_forEach_dom (nodes, edges, ids, tr) \<Longrightarrow>
     visited tr \<subseteq> visited (traverseFlow_forEach nodes edges ids tr)"
  by (induction nodes edges ids tr rule: traverseFlow_forEach.pinduct)
     (auto simp: traverseFlow_forEach.psimps split: option.splits if_splits)

text \<open>The traversal returns: every visit adds an id of the node list to \<open>visited\<close>.\<close>

termination traverseFlow_forEach
proof (relation "measures [\<lambda>(nodes, edges, ids, tr). card (node_id ` set nodes - visited tr),
                           \<lambda>(nodes, edges, ids, tr). length ids]", goal_cases)
  case 1
  then show ?case by simp
next
  case (2 nodes edges nodeId rest tr n)
  then have "nodeId \<in> node_id ` set nodes"
    using dom_nodeMap_of [of nodes] by blast
  with 2 have "node_id ` set nodes - insert nodeId (visited tr)
      \<subset> node_id ` set nodes - visited tr"
    by blast
  then have "card (node_id ` set nodes - insert nodeId (visited tr))
      < card (node_id ` set nodes - visited tr)"
    by (intro psubset_card_mono) auto
  then show ?case by simp
next
  case (3 nodes edges nodeId rest tr)
  let ?tr' = "if nodeId \<in> visited tr then tr
        else case nodeMap_of nodes nodeId of
          None \<Rightarrow> tr
        | Some n \<Rightarrow>
            traverseFlow_forEach nodes edges
              (case adjacency_of edges nodeId of None \<Rightarrow> [] | Some ts \<Rightarrow> ts)
              (push_numbered n (tr\<lparr>visited := insert nodeId (visited tr)\<rparr>))"
  have "visited tr \<subseteq> visited ?tr'"
    using 3 traverseFlow_forEach_visited_mono by (fastforce split: option.splits)
  then have "card (node_id ` set nodes - visited ?tr')
      \<le> card (node_id ` set nodes - visited tr)"
    by (intro card_mono) auto
  then show ?case by auto
qed

text \<open>\<^verbatim>\<open>traverseFlow(nodeId)\<close> is the loop over the single id.\<close>

definition traverseFlow :: "node list \<Rightarrow> edge list \<Rightarrow> string \<Rightarrow> traversal \<Rightarrow> traversal" where
  "traverseFlow nodes edges nodeId tr = traverseFlow_forEach nodes edges [nodeId] tr"

text \<open>\<^verbatim>\<open>renumberByFlowSequence\<close>. The loop over the start nodes calls \<^verbatim>\<open>traverseFlow\<close> for each
  of their ids; the loop over all nodes then pushes the unvisited ones.\<close>

definition renumberByFlowSequence :: "node list \<Rightarrow> edge list \<Rightarrow> node list" where
  "renumberByFlowSequence nodes edges =
     (if nodes = [] then nodes
      else
        let incomingEdges = set (map target edges);
            startNodes = filter (\<lambda>n. node_id n \<notin> incomingEdges) nodes;
            actualStartNodes = (if length startNodes > 0 then startNodes else [hd nodes]);
            tr = traverseFlow_forEach nodes edges (map node_id actualStartNodes)
                   \<lparr>visited = {}, updatedNodes = [], counter = 1\<rparr>;
            tr' = fold (\<lambda>n t. if node_id n \<notin> visited t then push_numbered n t else t) nodes tr
        in updatedNodes tr')"

section \<open>History\<close>

record snapshot =
  snap_nodes :: "node list"
  snap_edges :: "edge list"
  timestamp :: nat

text \<open>The part of the component state the operations below read and write
  (\<^verbatim>\<open>nodes\<close>, \<^verbatim>\<open>edges\<close>, \<^verbatim>\<open>history\<close>, \<^verbatim>\<open>historyIndex\<close>, \<^verbatim>\<open>errorMessage\<close>, \<^verbatim>\<open>showError\<close>).\<close>

record chart =
  cur_nodes :: "node list"
  cur_edges :: "edge list"
  history :: "snapshot list"
  historyIndex :: int
  errorMessage :: string
  showError :: bool

definition initial_chart :: chart where
  "initial_chart = \<lparr>cur_nodes = [], cur_edges = [], history = [], historyIndex = - 1,
     errorMessage = [], showError = False\<rparr>"

text \<open>\<^verbatim>\<open>xs.slice(0, e)\<close>: a negative end counts from the end of the array.\<close>

definition slice0 :: "'a list \<Rightarrow> int \<Rightarrow> 'a list" where
  "slice0 xs e = take (nat (if e < 0 then int (length xs) + e else e)) xs"

text \<open>\<^verbatim>\<open>saveToHistory\<close>; \<open>now\<close> is the value of \<^verbatim>\<open>Date.now()\<close>. The deep copy through
  JSON is the identity on the modelled fields.\<close>

definition saveToHistory :: "nat \<Rightarrow> node list \<Rightarrow> edge list \<Rightarrow> chart \<Rightarrow> chart" where
  "saveToHistory now newNodes newEdges st =
     (let newState = \<lparr>snap_nodes = newNodes, snap_edges = newEdges, timestamp = now\<rparr>;
          newHistory = slice0 (history st) (historyIndex st + 1) @ [newState]
      in if length newHistory > 50
         then st\<lparr>history := tl newHistory\<rparr>
         else st\<lparr>history := newHistory, historyIndex := historyIndex st + 1\<rparr>)"

text \<open>\<^verbatim>\<open>undo\<close> and \<^verbatim>\<open>redo\<close>. Reading \<^verbatim>\<open>state.nodes\<close> of a missing array element throws a
  TypeError before any state is set; that is \<open>None\<close>.\<close>

definition undo :: "chart \<Rightarrow> chart option" where
  "undo st =
     (if historyIndex st > 0
      then (let newIndex = historyIndex st - 1 in
            if nat newIndex < length (history st)
            then (let state = history st ! nat newIndex in
                  Some (st\<lparr>cur_nodes := snap_nodes state, cur_edges := snap_edges state,
                           historyIndex := newIndex\<rparr>))
            else None)
      else Some st)"

definition redo :: "chart \<Rightarrow> chart option" where
  "redo st =
     (if historyIndex st < int (length (history st)) - 1
      then (let newIndex = historyIndex st + 1 in
            if 0 \<le> newIndex
            then (let state = history st ! nat newIndex in
                  Some (st\<lparr>cur_nodes := snap_nodes state, cur_edges := snap_edges state,
                           historyIndex := newIndex\<rparr>))
            else None)
      else Some st)"

text \<open>A sequence of history operations. A handler that throws leaves the state as it was.\<close>

datatype history_op = Save nat "node list" "edge list" | Undo | Redo

fun history_step :: "chart \<Rightarrow> history_op \<Rightarrow> chart" where
  "history_step st (Save now ns es) = saveToHistory now ns es st"
| "history_step st Undo = (case undo st of None \<Rightarrow> st | Some st' \<Rightarrow> st')"
| "history_step st Redo = (case redo st of None \<Rightarrow> st | Some st' \<Rightarrow> st')"

definition history_run :: "chart \<Rightarrow> history_op list \<Rightarrow> chart" where
  "history_run st ops = foldl history_step st ops"

section \<open>Layout\<close>

text \<open>
  \<^verbatim>\<open>getLayoutedElements\<close> hands the node sizes and the edges to the dagre library and
  reads a centre point for every node id back. The library is a parameter: \<open>dagre\<close>
  maps the sized nodes and the edges to the centre of each id.
\<close>

type_synonym dagre_layout =
  "(string \<times> nat \<times> nat) list \<Rightarrow> (string \<times> string) list \<Rightarrow> string \<Rightarrow> real \<times> real"

definition node_dimensions :: "node \<Rightarrow> nat \<times> nat" where
  "node_dimensions n =
     (if node_type n = ''decision'' then (140, 100)
      else if node_type n = ''merge'' then (120, 100)
      else if node_type n = ''start'' \<or> node_type n = ''end'' then (120, 80)
      else (180, 120))"

definition node_offset :: "node \<Rightarrow> real \<times> real" where
  "node_offset n =
     (if node_type n = ''decision'' then (70, 50)
      else if node_type n = ''merge'' then (60, 50)
      else if node_type n = ''start'' \<or> node_type n = ''end'' then (60, 40)
      else (90, 60))"

text \<open>The edge at position \<open>i\<close> of the list: when its source is a decision node with at
  most three outgoing edges, its source handle becomes the port for its rank among them.\<close>

definition edgeWithHandle :: "node list \<Rightarrow> edge list \<Rightarrow> nat \<Rightarrow> edge \<Rightarrow> edge" where
  "edgeWithHandle nodes edges i e =
     (case find (\<lambda>n. node_id n = source e) nodes of
        None \<Rightarrow> e
      | Some sourceNode \<Rightarrow>
          if node_type sourceNode = ''decision''
          then (let outgoingEdges = filter (\<lambda>e'. source e' = source e) edges;
                    edgeIndex = length (filter (\<lambda>e'. source e' = source e) (take i edges))
                in if length outgoingEdges \<le> 3
                   then e\<lparr>sourceHandle := Port
                          (if edgeIndex < 3 then [''right'', ''top'', ''bottom''] ! edgeIndex
                           else ''right'')\<rparr>
                   else e)
          else e)"

definition getLayoutedElements ::
  "dagre_layout \<Rightarrow> node list \<Rightarrow> edge list \<Rightarrow> node list \<times> edge list" where
  "getLayoutedElements dagre nodes edges =
     (let edgesWithHandles = map (\<lambda>(i, e). edgeWithHandle nodes edges i e) (enumerate 0 edges);
          centre = dagre (map (\<lambda>n. (node_id n, node_dimensions n)) nodes)
                     (map (\<lambda>e. (source e, target e)) edgesWithHandles);
          layoutedNodes = map (\<lambda>n. n\<lparr>position :=
              (fst (centre (node_id n)) - fst (node_offset n),
               snd (centre (node_id n)) - snd (node_offset n))\<rparr>) nodes
      in (layoutedNodes, edgesWithHandles))"

section \<open>Incremental changes\<close>

text \<open>The \<^verbatim>\<open>node\<close> and \<^verbatim>\<open>edge\<close> objects of a change sent by the AI service, and the
  three kinds of change the loop handles; any other kind is skipped.\<close>

record node_spec =
  spec_id :: string
  spec_type :: string
  spec_position :: "(real \<times> real) option"
  spec_label :: string
  spec_logical_id :: string
  spec_owner :: string
  spec_system :: string
  spec_manualOrAutomated :: string

record edge_spec =
  spec_edge_id :: string
  spec_source :: string
  spec_target :: string
  spec_condition :: string

datatype change = Add_node node_spec | Update_node node_spec | Add_edge edge_spec | Other_change

text \<open>The working copies the loop updates, the orphan edges it warned about on the
  console, and how many values it has drawn from \<^verbatim>\<open>uuidv4()\<close> and \<^verbatim>\<open>Math.random()\<close>.\<close>

record batch =
  batch_nodes :: "node list"
  batch_edges :: "edge list"
  warnings :: "(string \<times> string) list"
  uuid_calls :: nat
  random_calls :: nat

text \<open>\<^verbatim>\<open>xs.findIndex(p)\<close>, with \<open>None\<close> for \<open>-1\<close>.\<close>

fun findIndex :: "('a \<Rightarrow> bool) \<Rightarrow> 'a list \<Rightarrow> nat option" where
  "findIndex P [] = None"
| "findIndex P (x # xs) =
     (if P x then Some 0 else case findIndex P xs of None \<Rightarrow> None | Some i \<Rightarrow> Some (Suc i))"

definition add_node :: "(nat \<Rightarrow> string) \<Rightarrow> (nat \<Rightarrow> real) \<Rightarrow> node_spec \<Rightarrow> batch \<Rightarrow> batch" where
  "add_node uuidv4 random spec b =
     (let u0 = uuid_calls b;
          (id1, u1) = (if spec_id spec \<noteq> [] then (spec_id spec, u0) else (uuidv4 u0, u0 + 1));
          r0 = random_calls b;
          (pos, r1) = (case spec_position spec of
                         Some p \<Rightarrow> (p, r0)
                       | None \<Rightarrow> ((random r0 * 400 + 100, random (r0 + 1) * 300 + 100), r0 + 2));
          (id2, u2) = (if spec_id spec \<noteq> [] then (spec_id spec, u1) else (uuidv4 u1, u1 + 1));
          newNode = \<lparr>node_id = id1,
             node_type = (if spec_type spec = ''decision'' then ''decision''
                          else if spec_type spec = ''start'' then ''start''
                          else if spec_type spec = ''end'' then ''end''
                          else if spec_type spec = ''merge'' then ''merge'' else ''default''),
             position = pos,
             data = \<lparr>label = spec_label spec,
                     data_id = id2,
                     logical_id = js_or (spec_logical_id spec) [],
                     owner = js_or (spec_owner spec) ''TBD'',
                     system = js_or (spec_system spec) ''TBD'',
                     manualOrAutomated = js_or (spec_manualOrAutomated spec) ''manual'',
                     data_type = js_or (spec_type spec) ''default'',
                     user_modified = False\<rparr>\<rparr>
      in b\<lparr>batch_nodes := batch_nodes b @ [newNode], uuid_calls := u2, random_calls := r1\<rparr>)"

definition update_node :: "node_spec \<Rightarrow> batch \<Rightarrow> batch" where
  "update_node spec b =
     (case findIndex (\<lambda>n. node_id n = spec_id spec) (batch_nodes b) of
        None \<Rightarrow> b
      | Some nodeIndex \<Rightarrow>
          if \<not> user_modified (data (batch_nodes b ! nodeIndex))
          then b\<lparr>batch_nodes := (batch_nodes b)[nodeIndex :=
                   (batch_nodes b ! nodeIndex)\<lparr>data :=
                      (data (batch_nodes b ! nodeIndex))\<lparr>label := spec_label spec\<rparr>\<rparr>]\<rparr>
          else b)"

definition add_edge :: "(nat \<Rightarrow> string) \<Rightarrow> edge_spec \<Rightarrow> batch \<Rightarrow> batch" where
  "add_edge uuidv4 spec b =
     (let sourceExists = (\<exists>n \<in> set (batch_nodes b). node_id n = spec_source spec);
          targetExists = (\<exists>n \<in> set (batch_nodes b). node_id n = spec_target spec)
      in if sourceExists \<and> targetExists
         then (let isDecisionNode =
                     (case find (\<lambda>n. node_id n = spec_source spec) (batch_nodes b) of
                        None \<Rightarrow> False
                      | Some sourceNode \<Rightarrow> node_type sourceNode = ''decision'');
                   newEdge = \<lparr>edge_id = (if spec_edge_id spec \<noteq> [] then spec_edge_id spec
                                           else uuidv4 (uuid_calls b)),
                      source = spec_source spec,
                      target = spec_target spec,
                      sourceHandle = Absent,
                      targetHandle = Absent,
                      edge_label = (if isDecisionNode then js_or (spec_condition spec) ''Yes/No''
                                    else [])\<rparr>
               in b\<lparr>batch_edges := batch_edges b @ [newEdge],
                     uuid_calls := (if spec_edge_id spec \<noteq> [] then uuid_calls b
                                    else uuid_calls b + 1)\<rparr>)
         else b\<lparr>warnings := warnings b @ [(spec_source spec, spec_target spec)]\<rparr>)"

fun apply_change :: "(nat \<Rightarrow> string) \<Rightarrow> (nat \<Rightarrow> real) \<Rightarrow> batch \<Rightarrow> change \<Rightarrow> batch" where
  "apply_change uuidv4 random b (Add_node spec) = add_node uuidv4 random spec b"
| "apply_change uuidv4 random b (Update_node spec) = update_node spec b"
| "apply_change uuidv4 random b (Add_edge spec) = add_edge uuidv4 spec b"
| "apply_change uuidv4 random b Other_change = b"

text \<open>\<^verbatim>\<open>changes.forEach(...)\<close>.\<close>

definition apply_changes ::
  "(nat \<Rightarrow> string) \<Rightarrow> (nat \<Rightarrow> real) \<Rightarrow> change list \<Rightarrow> batch \<Rightarrow> batch" where
  "apply_changes uuidv4 random changes b = foldl (apply_change uuidv4 random) b changes"

text \<open>
  What \<^verbatim>\<open>generateIncrementalFlow\<close> does with the changes of a response: apply them to
  copies of the current nodes and edges, lay the result out and store it with
  \<^verbatim>\<open>setNodes(layoutedNodes)\<close> and \<^verbatim>\<open>setEdges(layoutedEdges)\<close>. The next statement is
  \<^verbatim>\<open>setFlowData({ nodes: layoutedNodes, edges: layoutedEdges })\<close>, and the file declares no
  \<^verbatim>\<open>setFlowData\<close> (the component receives \<^verbatim>\<open>flowData\<close> only): the call throws a
  \<^verbatim>\<open>ReferenceError\<close>, which the \<^verbatim>\<open>catch\<close> of the enclosing \<^verbatim>\<open>try\<close> logs. So the
  \<^verbatim>\<open>saveToHistory(layoutedNodes, layoutedEdges)\<close> that follows is never reached, and a
  batch of changes pushes no snapshot: the history and its index stay as they were. An
  empty list of changes leaves the chart as it is.
\<close>

definition applyIncrementalChanges ::
  "dagre_layout \<Rightarrow> (nat \<Rightarrow> string) \<Rightarrow> (nat \<Rightarrow> real) \<Rightarrow> change list \<Rightarrow> chart \<Rightarrow> chart" where
  "applyIncrementalChanges dagre uuidv4 random changes st =
     (if length changes > 0
      then (let b = apply_changes uuidv4 random changes
                      \<lparr>batch_nodes = cur_nodes st, batch_edges = cur_edges st, warnings = [],
                       uuid_calls = 0, random_calls = 0\<rparr>;
                (layoutedNodes, layoutedEdges) =
                   getLayoutedElements dagre (batch_nodes b) (batch_edges b)
            in st\<lparr>cur_nodes := layoutedNodes, cur_edges := layoutedEdges\<rparr>)
      else st)"

section \<open>Connecting and reconnecting edges\<close>

text \<open>\<^verbatim>\<open>showErrorMessage\<close> (the timers that hide the message again are not modelled).\<close>

definition showErrorMessage :: "string \<Rightarrow> chart \<Rightarrow> chart" where
  "showErrorMessage message st = st\<lparr>errorMessage := message, showError := True\<rparr>"

text \<open>The block "Validate connection rules" of \<^verbatim>\<open>onConnect\<close>: the pair is
  \<^verbatim>\<open>(isValid, errorMessage)\<close> after the assignments, which run in this order.\<close>

definition onConnect_rules :: "string \<Rightarrow> string \<Rightarrow> nat \<Rightarrow> nat \<Rightarrow> bool \<times> string" where
  "onConnect_rules sourceType targetType sourceOutgoing targetIncoming =
     (let v0 = (True, []);
          v1 = (if sourceType = ''start''
                then (let v = (if targetIncoming > 0
                               then (False, ''Start node cannot have incoming connections'')
                               else v0)
                      in if sourceOutgoing \<ge> 1
                         then (False, ''Start node can only have one outgoing connection'')
                         else v)
                else if sourceType = ''end''
                then (False, ''End node cannot have outgoing connections'')
                else if sourceType = ''default''
                then (if sourceOutgoing \<ge> 1
                      then (False, ''Process step can only have one outgoing connection'')
                      else v0)
                else if sourceType = ''decision''
                then (if sourceOutgoing \<ge> 3
                      then (False, ''Decision node can have maximum 3 outgoing connections'')
                      else v0)
                else v0)
      in if targetType = ''start''
         then (False, ''Start node cannot have incoming connections'')
         else if targetType = ''end'' then v1
         else if targetType = ''default''
         then (if targetIncoming \<ge> 1
               then (False, ''Process step can only have one incoming connection'')
               else v1)
         else if targetType = ''decision''
         then (if targetIncoming \<ge> 1
               then (False, ''Decision node can only have one incoming connection'')
               else v1)
         else v1)"

text \<open>
  \<^verbatim>\<open>onConnect\<close>. \<open>addEdge\<close> is React Flow's function of that name, a parameter here; the
  edge it receives has no id yet (\<open>edge_id = []\<close>).
\<close>

definition onConnect ::
  "(edge \<Rightarrow> edge list \<Rightarrow> edge list) \<Rightarrow> nat \<Rightarrow> chart \<Rightarrow> connection \<Rightarrow> chart" where
  "onConnect addEdge now st params =
     (case (find (\<lambda>n. node_id n = conn_source params) (cur_nodes st),
            find (\<lambda>n. node_id n = conn_target params) (cur_nodes st)) of
        (Some sourceNode, Some targetNode) \<Rightarrow>
          (let sourceType = node_type sourceNode;
               targetType = node_type targetNode;
               sourceOutgoing = length (filter (\<lambda>e. source e = conn_source params) (cur_edges st));
               targetIncoming = length (filter (\<lambda>e. target e = conn_target params) (cur_edges st));
               existingConnection = find (\<lambda>e.
                  source e = conn_source params \<and> target e = conn_target params \<and>
                  sourceHandle e = conn_sourceHandle params \<and>
                  targetHandle e = conn_targetHandle params) (cur_edges st);
               sourceHandleUsed = (\<exists>e \<in> set (cur_edges st).
                  source e = conn_source params \<and> sourceHandle e = conn_sourceHandle params);
               targetHandleUsed = (\<exists>e \<in> set (cur_edges st).
                  target e = conn_target params \<and> targetHandle e = conn_targetHandle params)
           in if existingConnection \<noteq> None
              then showErrorMessage ''Connection already exists at this anchor point'' st
              else if sourceHandleUsed
              then showErrorMessage ''This connector point is already in use'' st
              else if targetHandleUsed
              then showErrorMessage ''This connector point is already in use'' st
              else (let (isValid, errorMessage) =
                          onConnect_rules sourceType targetType sourceOutgoing targetIncoming
                    in if \<not> isValid then showErrorMessage errorMessage st
                       else (let isDecisionNode = (sourceType = ''decision'');
                                 newEdges = addEdge
                                   \<lparr>edge_id = [],
                                    source = conn_source params,
                                    target = conn_target params,
                                    sourceHandle = conn_sourceHandle params,
                                    targetHandle = conn_targetHandle params,
                                    edge_label = (if isDecisionNode
                                       then (if conn_targetHandle params = Port ''top''
                                             then ''Yes'' else ''No'')
                                       else [])\<rparr>
                                   (cur_edges st);
                                 renumberedNodes = renumberByFlowSequence (cur_nodes st) newEdges
                             in saveToHistory now renumberedNodes newEdges
                                  (st\<lparr>cur_edges := newEdges, cur_nodes := renumberedNodes\<rparr>))))
      | _ \<Rightarrow> st)"

text \<open>The validation block of \<^verbatim>\<open>onReconnect\<close>.\<close>

definition onReconnect_rules :: "string \<Rightarrow> string \<Rightarrow> nat \<Rightarrow> nat \<Rightarrow> bool \<times> string" where
  "onReconnect_rules sourceType targetType sourceOutgoing targetIncoming =
     (let v0 = (True, []);
          v1 = (if sourceType = ''start'' \<and> sourceOutgoing \<ge> 1
                then (False, ''Start node can only have one outgoing connection'')
                else if sourceType = ''end''
                then (False, ''End node cannot have outgoing connections'')
                else if sourceType = ''default'' \<and> sourceOutgoing \<ge> 1
                then (False, ''Process step can only have one outgoing connection'')
                else if sourceType = ''decision'' \<and> sourceOutgoing \<ge> 3
                then (False, ''Decision node can have maximum 3 outgoing connections'')
                else v0)
      in if targetType = ''start''
         then (False, ''Start node cannot have incoming connections'')
         else if targetType = ''default'' \<and> targetIncoming \<ge> 1
         then (False, ''Process step can only have one incoming connection'')
         else if targetType = ''decision'' \<and> targetIncoming \<ge> 1
         then (False, ''Decision node can only have one incoming connection'')
         else v1)"

text \<open>
  \<^verbatim>\<open>onReconnect\<close>, up to the update of the edges. \<open>reconnectEdge\<close> is React Flow's function
  of that name, a parameter here. (The renumbering and the snapshot that the handler
  schedules on a timer are not part of this definition.)
\<close>

definition onReconnect ::
  "(edge \<Rightarrow> connection \<Rightarrow> edge list \<Rightarrow> edge list) \<Rightarrow> chart \<Rightarrow> edge \<Rightarrow> connection \<Rightarrow> chart" where
  "onReconnect reconnectEdge st oldEdge newConnection =
     (case (find (\<lambda>n. node_id n = conn_source newConnection) (cur_nodes st),
            find (\<lambda>n. node_id n = conn_target newConnection) (cur_nodes st)) of
        (Some sourceNode, Some targetNode) \<Rightarrow>
          (let sourceType = node_type sourceNode;
               targetType = node_type targetNode;
               otherEdges = filter (\<lambda>e. edge_id e \<noteq> edge_id oldEdge) (cur_edges st);
               sourceOutgoing = length (filter (\<lambda>e. source e = conn_source newConnection) otherEdges);
               targetIncoming = length (filter (\<lambda>e. target e = conn_target newConnection) otherEdges);
               (isValid, errorMessage) =
                  onReconnect_rules sourceType targetType sourceOutgoing targetIncoming
           in if \<not> isValid then showErrorMessage errorMessage st
              else st\<lparr>cur_edges := reconnectEdge oldEdge newConnection (cur_edges st)\<rparr>)
      | _ \<Rightarrow> showErrorMessage ''Invalid reconnection: source or target node not found'' st)"

section \<open>Adding a step from the toolbar\<close>

text \<open>
  The comparison \<^verbatim>\<open>logicalId > maxId\<close> of two strings: by code units, from the left, a
  proper prefix being smaller.
\<close>

fun js_string_less :: "string \<Rightarrow> string \<Rightarrow> bool" where
  "js_string_less [] [] = False"
| "js_string_less [] (y # ys) = True"
| "js_string_less (x # xs) [] = False"
| "js_string_less (x # xs) (y # ys) =
     (if x = y then js_string_less xs ys else (of_char x :: nat) < of_char y)"

text \<open>\<^verbatim>\<open>String.prototype.startsWith\<close>, \<^verbatim>\<open>split\<close> on a one-character separator and \<^verbatim>\<open>join\<close>.\<close>

definition startsWith :: "string \<Rightarrow> string \<Rightarrow> bool" where
  "startsWith s p \<longleftrightarrow> take (length p) s = p"

fun split_on :: "char \<Rightarrow> string \<Rightarrow> string list" where
  "split_on c [] = [[]]"
| "split_on c (x # xs) =
     (if x = c then [] # split_on c xs
      else (case split_on c xs of [] \<Rightarrow> [[x]] | p # ps \<Rightarrow> (x # p) # ps))"

fun join_with :: "string \<Rightarrow> string list \<Rightarrow> string" where
  "join_with sep [] = []"
| "join_with sep [p] = p"
| "join_with sep (p # q # ps) = p @ sep @ join_with sep (q # ps)"

text \<open>
  \<^verbatim>\<open>parseInt\<close> with one argument: leading white space is skipped, a sign is read, the
  prefix \<^verbatim>\<open>0x\<close> or \<^verbatim>\<open>0X\<close> selects radix 16, and the longest run of digits of the radix
  is the value; with no digit the result is \<^verbatim>\<open>NaN\<close>, here \<open>None\<close>. The numbers are
  integers of any size: the rounding of the source's double-precision numbers above
  \<open>2\<^sup>5\<^sup>3\<close> is not modelled.
\<close>

definition is_js_space :: "char \<Rightarrow> bool" where
  "is_js_space c \<longleftrightarrow> (of_char c :: nat) \<in> {9, 10, 11, 12, 13, 32, 160}"

definition digit_value :: "char \<Rightarrow> nat option" where
  "digit_value c =
     (let k = (of_char c :: nat) in
      if 48 \<le> k \<and> k \<le> 57 then Some (k - 48)
      else if 97 \<le> k \<and> k \<le> 102 then Some (k - 87)
      else if 65 \<le> k \<and> k \<le> 70 then Some (k - 55)
      else None)"

fun leading_digits :: "nat \<Rightarrow> string \<Rightarrow> nat list" where
  "leading_digits radix [] = []"
| "leading_digits radix (c # cs) =
     (case digit_value c of
        None \<Rightarrow> []
      | Some d \<Rightarrow> if d < radix then d # leading_digits radix cs else [])"

definition parseInt :: "string \<Rightarrow> int option" where
  "parseInt str =
     (let s = dropWhile is_js_space str;
          negative = (take 1 s = ''-'');
          s1 = (if take 1 s = ''-'' \<or> take 1 s = ''+'' then drop 1 s else s);
          hex = (take 2 s1 = ''0x'' \<or> take 2 s1 = ''0X'');
          radix = (if hex then 16 else 10);
          s2 = (if hex then drop 2 s1 else s1);
          ds = leading_digits radix s2
      in if ds = [] then None
         else (let v = int (foldl (\<lambda>acc d. acc * radix + d) 0 ds)
               in Some (if negative then - v else v)))"

text \<open>\<^verbatim>\<open>(lastNum + 1).toString()\<close> is applied to the result of \<open>map_option\<close>: \<^verbatim>\<open>NaN + 1\<close> is \<^verbatim>\<open>NaN\<close>.\<close>

definition number_toString :: "int option \<Rightarrow> string" where
  "number_toString x =
     (case x of
        None \<Rightarrow> ''NaN''
      | Some n \<Rightarrow> if n < 0 then ''-'' @ string_of_nat (nat (- n)) else string_of_nat (nat n))"

text \<open>
  \<^verbatim>\<open>getNextLogicalId\<close>: the largest logical id with the prefix \<^verbatim>\<open>1.1.1.\<close>, in the order of
  strings and starting from \<^verbatim>\<open>1.1.1.0\<close>, with its last component increased by one. The
  body of the \<^verbatim>\<open>try\<close> throws nothing, so the \<^verbatim>\<open>catch\<close> is no branch.
\<close>

definition getNextLogicalId :: "node list \<Rightarrow> string" where
  "getNextLogicalId existingNodes =
     (if existingNodes = [] then ''1.1.1.1''
      else
        let maxId = foldl (\<lambda>maxId node.
                      let logicalId = logical_id (data node)
                      in if logicalId \<noteq> [] \<and> startsWith logicalId ''1.1.1.''
                            \<and> js_string_less maxId logicalId
                         then logicalId else maxId)
                    ''1.1.1.0'' existingNodes;
            parts = split_on CHR ''.'' maxId
        in if length parts \<ge> 4
           then (let lastNum = parseInt (last parts)
                 in join_with ''.''
                      (butlast parts @ [number_toString (map_option (\<lambda>n. n + 1) lastNum)]))
           else ''1.1.1.1'')"

text \<open>
  \<^verbatim>\<open>handleMidStepInsertion\<close>: the new node is placed between the ends of the target edge,
  the edge is replaced by two edges through the new node, and the nodes are renumbered.
  \<open>now1\<close> and \<open>now2\<close> are the times read for the ids of the two edges.
\<close>

definition handleMidStepInsertion ::
  "nat \<Rightarrow> nat \<Rightarrow> node \<Rightarrow> edge option \<Rightarrow> node list \<Rightarrow> edge list \<Rightarrow> node list \<times> edge list" where
  "handleMidStepInsertion now1 now2 newNode targetEdge nodes edges =
     (case targetEdge of
        None \<Rightarrow> (nodes, edges)
      | Some targetEdge \<Rightarrow>
          (case (find (\<lambda>n. node_id n = source targetEdge) nodes,
                 find (\<lambda>n. node_id n = target targetEdge) nodes) of
             (Some sourceNode, Some targetNode) \<Rightarrow>
               (let newNodeWithPosition = newNode\<lparr>position :=
                       ((fst (position sourceNode) + fst (position targetNode)) / 2,
                        (snd (position sourceNode) + snd (position targetNode)) / 2)\<rparr>;
                    filteredEdges = filter (\<lambda>e. edge_id e \<noteq> edge_id targetEdge) edges;
                    edge1 = \<lparr>edge_id = ''e-'' @ string_of_nat now1 @ ''-1'',
                             source = source targetEdge, target = node_id newNode,
                             sourceHandle = Absent, targetHandle = Absent, edge_label = []\<rparr>;
                    edge2 = \<lparr>edge_id = ''e-'' @ string_of_nat now2 @ ''-2'',
                             source = node_id newNode, target = target targetEdge,
                             sourceHandle = Absent, targetHandle = Absent, edge_label = []\<rparr>;
                    newNodes = nodes @ [newNodeWithPosition];
                    newEdges = filteredEdges @ [edge1, edge2];
                    renumberedNodes = renumberByFlowSequence newNodes newEdges
                in (renumberedNodes, newEdges))
           | _ \<Rightarrow> (nodes, edges)))"

text \<open>
  \<^verbatim>\<open>addSimpleStep\<close>, the caller of \<^verbatim>\<open>getNextLogicalId\<close> that the toolbar reaches (the
  other two, \<^verbatim>\<open>addTaskNode\<close> and \<^verbatim>\<open>addGatewayNode\<close>, are called from nowhere). The
  text of the function and of its callees reads the clock at four places, each run at
  most once: \<open>now 0\<close> is the time read for the id of the node, \<open>now 1\<close> and \<open>now 2\<close> for
  the two edges of an insertion, and \<open>now 3\<close> for the snapshot. \<open>random 0\<close> and \<open>random 1\<close>
  are the two results of \<^verbatim>\<open>Math.random()\<close>. Outside an insertion the new node is appended
  with the id that \<^verbatim>\<open>getNextLogicalId\<close> returned, and nothing is renumbered.
\<close>

definition addSimpleStep ::
  "(nat \<Rightarrow> nat) \<Rightarrow> (nat \<Rightarrow> real) \<Rightarrow> string \<Rightarrow> bool \<Rightarrow> edge option \<Rightarrow> chart \<Rightarrow> chart" where
  "addSimpleStep now random stepType isMidStepInsertion targetEdgeForInsertion st =
     (let newId = ''step-'' @ string_of_nat (now 0);
          logicalId = getNextLogicalId (cur_nodes st);
          newNode = \<lparr>node_id = newId, node_type = ''default'',
             position = (random 0 * 400 + 100, random 1 * 300 + 100),
             data = \<lparr>label = ''New '' @ stepType, data_id = newId, logical_id = logicalId,
                     owner = ''TBD'', system = ''TBD'', manualOrAutomated = ''manual'',
                     data_type = ''default'', user_modified = False\<rparr>\<rparr>
      in if isMidStepInsertion \<and> targetEdgeForInsertion \<noteq> None
         then (let (newNodes, newEdges) =
                     handleMidStepInsertion (now 1) (now 2) newNode targetEdgeForInsertion
                       (cur_nodes st) (cur_edges st)
               in saveToHistory (now 3) newNodes newEdges
                    (st\<lparr>cur_nodes := newNodes, cur_edges := newEdges\<rparr>))
         else saveToHistory (now 3) (cur_nodes st @ [newNode]) (cur_edges st)
                (st\<lparr>cur_nodes := cur_nodes st @ [newNode]\<rparr>))"

section \<open>Notions used in the proofs\<close>

text \<open>The adjacency list of a node, empty when the node has no outgoing edge.\<close>

definition adj_list :: "edge list \<Rightarrow> string \<Rightarrow> string list" where
  "adj_list edges x = (case adjacency_of edges x of None \<Rightarrow> [] | Some ts \<Rightarrow> ts)"

text \<open>
  The ids that a run of \<^const>\<open>traverseFlow_forEach\<close> visits, in the order of the visits:
  \<open>ks\<close> are the ids of the node list, \<open>adj\<close> gives the adjacency lists and \<open>V\<close> is the
  set of ids visited before.
\<close>

function dfs_order ::
  "string list \<Rightarrow> (string \<Rightarrow> string list) \<Rightarrow> string list \<Rightarrow> string set \<Rightarrow> string list" where
  "dfs_order ks adj [] V = []"
| "dfs_order ks adj (x # rest) V =
     (let here = (if x \<in> V \<or> x \<notin> set ks then []
                  else x # dfs_order ks adj (adj x) (insert x V))
      in here @ dfs_order ks adj rest (V \<union> set here))"
  by pat_completeness auto

termination dfs_order
proof (relation "measures [\<lambda>(ks, adj, ids, V). card (set ks - V),
                           \<lambda>(ks, adj, ids, V). length ids]", goal_cases)
  case 1
  then show ?case by simp
next
  case (2 ks adj x rest V)
  then have "set ks - insert x V \<subset> set ks - V" by blast
  then have "card (set ks - insert x V) < card (set ks - V)"
    by (intro psubset_card_mono) auto
  then show ?case by simp
next
  case (3 ks adj x rest V here)
  have "card (set ks - (V \<union> set here)) \<le> card (set ks - V)"
    by (intro card_mono) auto
  then show ?case by auto
qed

declare dfs_order.simps(2) [simp del]

text \<open>What \<^const>\<open>push_numbered\<close> pushes for a node when the counter is \<open>c\<close>, and the counter
  afterwards; \<open>numbered\<close> does this along a list.\<close>

definition relabel :: "node \<Rightarrow> nat \<Rightarrow> node" where
  "relabel n c =
     (if keeps_logical_id (node_type n)
      then n\<lparr>data := (data n)\<lparr>logical_id := js_or (logical_id (data n)) []\<rparr>\<rparr>
      else n\<lparr>data := (data n)\<lparr>logical_id := ''1.1.1.'' @ string_of_nat c\<rparr>\<rparr>)"

definition bump :: "node \<Rightarrow> nat \<Rightarrow> nat" where
  "bump n c = (if keeps_logical_id (node_type n) then c else c + 1)"

fun numbered :: "node list \<Rightarrow> nat \<Rightarrow> node list" where
  "numbered [] c = []"
| "numbered (n # ns) c = relabel n c # numbered ns (bump n c)"

text \<open>The ids the traversal starts from, the order in which it visits, and the nodes in
  the order in which \<^const>\<open>renumberByFlowSequence\<close> returns them: the visited ones first,
  then the unvisited ones in stored order.\<close>

definition start_ids :: "node list \<Rightarrow> edge list \<Rightarrow> string list" where
  "start_ids ns es =
     (if filter (\<lambda>i. i \<notin> set (map target es)) (map node_id ns) \<noteq> []
      then filter (\<lambda>i. i \<notin> set (map target es)) (map node_id ns)
      else [node_id (hd ns)])"

definition visit_order :: "node list \<Rightarrow> edge list \<Rightarrow> string list" where
  "visit_order ns es = dfs_order (map node_id ns) (adj_list es) (start_ids ns es) {}"

definition arrange :: "node list \<Rightarrow> edge list \<Rightarrow> node list" where
  "arrange ns es =
     map (the \<circ> nodeMap_of ns) (visit_order ns es)
       @ filter (\<lambda>n. node_id n \<notin> set (visit_order ns es)) ns"

text \<open>A process step is a node of any type other than start, end, decision and merge.\<close>

definition is_process :: "node \<Rightarrow> bool" where
  "is_process n \<longleftrightarrow> \<not> keeps_logical_id (node_type n)"

text \<open>The number that the numbering gives to a process step at position \<open>i\<close> of a list:
  one more than the number of process steps before it.\<close>

definition process_number :: "node list \<Rightarrow> nat \<Rightarrow> nat" where
  "process_number ns i = 1 + length (filter is_process (take i ns))"

text \<open>A node with its logical id blanked, to compare nodes up to the logical id.\<close>

definition without_logical_id :: "node \<Rightarrow> node" where
  "without_logical_id n = n\<lparr>data := (data n)\<lparr>logical_id := []\<rparr>\<rparr>"

text \<open>
  The calls \<^verbatim>\<open>traverseFlow(x)\<close> that visit a node, in the order of the visits, each with
  its caller: \<open>None\<close> for a call made by the loop over the start nodes, \<open>Some u\<close> for a call
  made by the loop over the adjacency list of \<open>u\<close>. The recursion is the one of
  \<^const>\<open>dfs_order\<close>.
\<close>

function dfs_calls ::
  "string list \<Rightarrow> (string \<Rightarrow> string list) \<Rightarrow> string option \<Rightarrow> string list \<Rightarrow> string set
     \<Rightarrow> (string option \<times> string) list" where
  "dfs_calls ks adj caller [] V = []"
| "dfs_calls ks adj caller (x # rest) V =
     (let here = (if x \<in> V \<or> x \<notin> set ks then []
                  else (caller, x) # dfs_calls ks adj (Some x) (adj x) (insert x V))
      in here @ dfs_calls ks adj caller rest (V \<union> snd ` set here))"
  by pat_completeness auto

termination dfs_calls
proof (relation "measures [\<lambda>(ks, adj, caller, ids, V). card (set ks - V),
                           \<lambda>(ks, adj, caller, ids, V). length ids]", goal_cases)
  case 1
  then show ?case by simp
next
  case (2 ks adj caller x rest V)
  then have "set ks - insert x V \<subset> set ks - V" by blast
  then have "card (set ks - insert x V) < card (set ks - V)"
    by (intro psubset_card_mono) auto
  then show ?case by simp
next
  case (3 ks adj caller x rest V here)
  have "card (set ks - (V \<union> snd ` set here)) \<le> card (set ks - V)"
    by (intro card_mono) auto
  then show ?case by auto
qed

declare dfs_calls.simps(2) [simp del]

definition traversal_calls :: "node list \<Rightarrow> edge list \<Rightarrow> (string option \<times> string) list" where
  "traversal_calls ns es = dfs_calls (map node_id ns) (adj_list es) None (start_ids ns es) {}"

text \<open>A traversal path from a root: the first node is visited by a call from the loop over
  the start nodes, every further node by a call from the visit of the node before it.\<close>

fun call_chain :: "(string option \<times> string) list \<Rightarrow> string option \<Rightarrow> string list \<Rightarrow> bool" where
  "call_chain calls caller [] = True"
| "call_chain calls caller (v # path) = ((caller, v) \<in> set calls \<and> call_chain calls (Some v) path)"

definition traversal_path :: "node list \<Rightarrow> edge list \<Rightarrow> string list \<Rightarrow> bool" where
  "traversal_path ns es path = call_chain (traversal_calls ns es) None path"

text \<open>The position of the first occurrence of an element, and one element occurring
  before another.\<close>

definition position_of :: "'a list \<Rightarrow> 'a \<Rightarrow> nat" where
  "position_of xs x = length (takeWhile (\<lambda>y. y \<noteq> x) xs)"

definition before :: "'a list \<Rightarrow> 'a \<Rightarrow> 'a \<Rightarrow> bool" where
  "before xs u v \<longleftrightarrow> (\<exists>a b c. xs = a @ u # b @ v # c)"

text \<open>Two working states of a batch that differ at most in the warnings.\<close>

definition same_graph :: "batch \<Rightarrow> batch \<Rightarrow> bool" where
  "same_graph b b' \<longleftrightarrow>
     batch_nodes b = batch_nodes b' \<and> batch_edges b = batch_edges b' \<and>
     uuid_calls b = uuid_calls b' \<and> random_calls b = random_calls b'"

text \<open>The node at a position of a list has the id and the data of a given node.\<close>

definition kept :: "nat \<Rightarrow> node \<Rightarrow> node list \<Rightarrow> bool" where
  "kept i n ns \<longleftrightarrow>
     i < length ns \<and> node_id (ns ! i) = node_id n \<and> data (ns ! i) = data n"

text \<open>Every process step carries a logical id that no other node of the list carries.\<close>

definition logical_ids_unique_in_graph :: "node list \<Rightarrow> bool" where
  "logical_ids_unique_in_graph ns \<longleftrightarrow>
     (\<forall>n \<in> set (filter is_process ns).
        length (filter (\<lambda>m. logical_id (data m) = logical_id (data n)) ns) = 1)"

text \<open>
  A path of edges from a start node: the first node is one the traversal starts from, and
  every further node is the target of an edge from the node before it.
\<close>

fun edge_chain :: "edge list \<Rightarrow> string \<Rightarrow> string list \<Rightarrow> bool" where
  "edge_chain es u [] = True"
| "edge_chain es u (v # path) =
     ((\<exists>e \<in> set es. source e = u \<and> target e = v) \<and> edge_chain es v path)"

definition edge_path :: "node list \<Rightarrow> edge list \<Rightarrow> string list \<Rightarrow> bool" where
  "edge_path ns es path =
     (case path of [] \<Rightarrow> True | r # rest \<Rightarrow> r \<in> set (start_ids ns es) \<and> edge_chain es r rest)"

text \<open>
  The numbers of the process steps on a path strictly increase, read off a numbered list.
\<close>

definition numbers_increase_along :: "node list \<Rightarrow> string list \<Rightarrow> bool" where
  "numbers_increase_along out path =
     sorted_wrt (<) (map (\<lambda>v. process_number out (position_of (map node_id out) v))
        (filter (\<lambda>v. is_process (out ! position_of (map node_id out) v)) path))"

section \<open>Repeated batches and example values\<close>

text \<open>A run of several responses, one list of changes each.\<close>

definition run_batches ::
  "dagre_layout \<Rightarrow> (nat \<Rightarrow> string) \<Rightarrow> (nat \<Rightarrow> real) \<Rightarrow> change list list \<Rightarrow> chart \<Rightarrow> chart" where
  "run_batches dagre uuidv4 random batches st =
     foldl (\<lambda>st changes. applyIncrementalChanges dagre uuidv4 random changes st) st batches"

text \<open>A label edit in a node component sets \<^verbatim>\<open>data.user_modified\<close>.\<close>

definition user_edited :: "node \<Rightarrow> node" where
  "user_edited n = n\<lparr>data := (data n)\<lparr>user_modified := True\<rparr>\<rparr>"

text \<open>Nodes, edges, changes and working states for the concrete instances below.\<close>

definition example_node :: "string \<Rightarrow> string \<Rightarrow> string \<Rightarrow> node" where
  "example_node i t l =
     \<lparr>node_id = i, node_type = t, position = (0, 0),
      data = \<lparr>label = i, data_id = i, logical_id = l, owner = ''TBD'', system = ''TBD'',
              manualOrAutomated = ''manual'', data_type = t, user_modified = False\<rparr>\<rparr>"

definition example_edge :: "string \<Rightarrow> string \<Rightarrow> string \<Rightarrow> handle \<Rightarrow> handle \<Rightarrow> edge" where
  "example_edge i s t sh th =
     \<lparr>edge_id = i, source = s, target = t, sourceHandle = sh, targetHandle = th, edge_label = []\<rparr>"

definition example_update :: "string \<Rightarrow> string \<Rightarrow> change" where
  "example_update i l =
     Update_node \<lparr>spec_id = i, spec_type = [], spec_position = None, spec_label = l,
       spec_logical_id = [], spec_owner = [], spec_system = [], spec_manualOrAutomated = []\<rparr>"

definition example_batch :: "node list \<Rightarrow> edge list \<Rightarrow> batch" where
  "example_batch ns es =
     \<lparr>batch_nodes = ns, batch_edges = es, warnings = [], uuid_calls = 0, random_calls = 0\<rparr>"

text \<open>Ten steps without edges, and a diamond: \<open>s \<rightarrow> d\<close>, \<open>d \<rightarrow> a \<rightarrow> m\<close>, \<open>d \<rightarrow> b \<rightarrow> m\<close>, \<open>m \<rightarrow> c\<close>.\<close>

definition example_ten_steps :: "node list" where
  "example_ten_steps =
     [example_node ''s1'' ''default'' [], example_node ''s2'' ''default'' [],
      example_node ''s3'' ''default'' [], example_node ''s4'' ''default'' [],
      example_node ''s5'' ''default'' [], example_node ''s6'' ''default'' [],
      example_node ''s7'' ''default'' [], example_node ''s8'' ''default'' [],
      example_node ''s9'' ''default'' [], example_node ''s10'' ''default'' []]"

definition example_diamond_nodes :: "node list" where
  "example_diamond_nodes =
     [example_node ''s'' ''start'' [], example_node ''d'' ''decision'' [],
      example_node ''a'' ''default'' [], example_node ''b'' ''default'' [],
      example_node ''m'' ''merge'' [], example_node ''c'' ''default'' []]"

definition example_diamond_edges :: "edge list" where
  "example_diamond_edges =
     [example_edge ''e1'' ''s'' ''d'' Absent Absent, example_edge ''e2'' ''d'' ''a'' Absent Absent,
      example_edge ''e3'' ''d'' ''b'' Absent Absent, example_edge ''e4'' ''a'' ''m'' Absent Absent,
      example_edge ''e5'' ''b'' ''m'' Absent Absent, example_edge ''e6'' ''m'' ''c'' Absent Absent]"

section \<open>Properties of the history\<close>

lemma cur_nodes_saveToHistory [simp]:
  "cur_nodes (saveToHistory now ns es st) = cur_nodes st"
  by (simp add: saveToHistory_def Let_def)

lemma length_slice0: "length (slice0 xs e) \<le> length xs"
  by (simp add: slice0_def)

lemma saveToHistory_bound:
  "length (history st) \<le> 50 \<Longrightarrow> length (history (saveToHistory now ns es st)) \<le> 50"
  using length_slice0 [of "history st" "historyIndex st + 1"]
  by (simp add: saveToHistory_def Let_def)

lemma history_step_bound:
  "length (history st) \<le> 50 \<Longrightarrow> length (history (history_step st a)) \<le> 50"
  by (cases a) (auto simp: saveToHistory_bound undo_def redo_def Let_def split: option.splits if_splits)

lemma foldl_history_bound:
  "length (history st) \<le> 50 \<Longrightarrow> length (history (foldl history_step st ops)) \<le> 50"
  by (induction ops arbitrary: st) (simp_all add: history_step_bound)

lemma saveToHistory_evicts:
  assumes "length (slice0 (history st) (historyIndex st + 1)) = 50"
  shows "history (saveToHistory now ns es st) =
           tl (slice0 (history st) (historyIndex st + 1))
             @ [\<lparr>snap_nodes = ns, snap_edges = es, timestamp = now\<rparr>]"
proof -
  from assms have "slice0 (history st) (historyIndex st + 1) \<noteq> []" by auto
  with assms show ?thesis by (simp add: saveToHistory_def Let_def)
qed

text \<open>
  Claim C9. Starting from the empty history, after any sequence of snapshot pushes, undos
  and redos the history holds at most 50 snapshots. A push made with the cursor at
  position \<open>k\<close> keeps the first \<open>k + 1\<close> snapshots only (those up to the cursor) and
  appends the new one; when that makes 51 snapshots, the oldest is dropped.
\<close>

theorem history_never_exceeds_50:
  "length (history (history_run initial_chart ops)) \<le> 50
   \<and> (- 1 \<le> historyIndex st \<and> length (take (nat (historyIndex st + 1)) (history st)) < 50 \<longrightarrow>
        history (saveToHistory now ns es st) =
          take (nat (historyIndex st + 1)) (history st)
            @ [\<lparr>snap_nodes = ns, snap_edges = es, timestamp = now\<rparr>])
   \<and> (- 1 \<le> historyIndex st \<and> length (take (nat (historyIndex st + 1)) (history st)) = 50 \<longrightarrow>
        history (saveToHistory now ns es st) =
          tl (take (nat (historyIndex st + 1)) (history st))
            @ [\<lparr>snap_nodes = ns, snap_edges = es, timestamp = now\<rparr>]
        \<and> length (history (saveToHistory now ns es st)) = 50)"
proof -
  have bound: "length (history (history_run initial_chart ops)) \<le> 50"
    unfolding history_run_def by (rule foldl_history_bound) (simp add: initial_chart_def)
  have sl: "slice0 (history st) (historyIndex st + 1) = take (nat (historyIndex st + 1)) (history st)"
    if "- 1 \<le> historyIndex st"
    using that by (simp add: slice0_def)
  have below: "history (saveToHistory now ns es st) =
          take (nat (historyIndex st + 1)) (history st)
            @ [\<lparr>snap_nodes = ns, snap_edges = es, timestamp = now\<rparr>]"
    if "- 1 \<le> historyIndex st" "length (take (nat (historyIndex st + 1)) (history st)) < 50"
  proof -
    define keep where "keep = take (nat (historyIndex st + 1)) (history st)"
    from that(2) have "length keep < 50" by (simp only: keep_def)
    then have "\<not> 50 < length (keep @ [\<lparr>snap_nodes = ns, snap_edges = es, timestamp = now\<rparr>])"
      by simp
    then show ?thesis
      unfolding saveToHistory_def Let_def sl [OF that(1)] keep_def [symmetric] by simp
  qed
  have full: "history (saveToHistory now ns es st) =
          tl (take (nat (historyIndex st + 1)) (history st))
            @ [\<lparr>snap_nodes = ns, snap_edges = es, timestamp = now\<rparr>]
        \<and> length (history (saveToHistory now ns es st)) = 50"
    if "- 1 \<le> historyIndex st" "length (take (nat (historyIndex st + 1)) (history st)) = 50"
    using that(2) saveToHistory_evicts [of st now ns es] unfolding sl [OF that(1)] by simp
  from bound below full show ?thesis by blast
qed

theorem history_never_exceeds_50_witness:
  "length (history (history_run initial_chart [Save 1 [] [], Undo, Save 2 [] []])) \<le> 50
   \<and> length (history (saveToHistory 7 [] [] (initial_chart\<lparr>history :=
          replicate 50 \<lparr>snap_nodes = [], snap_edges = [], timestamp = 0\<rparr>, historyIndex := 49\<rparr>))) = 50
   \<and> last (history (saveToHistory 7 [] [] (initial_chart\<lparr>history :=
          replicate 50 \<lparr>snap_nodes = [], snap_edges = [], timestamp = 0\<rparr>, historyIndex := 49\<rparr>)))
       = \<lparr>snap_nodes = [], snap_edges = [], timestamp = 7\<rparr>
   \<and> history (saveToHistory 7 [] [] (initial_chart\<lparr>history :=
          replicate 3 \<lparr>snap_nodes = [], snap_edges = [], timestamp = 0\<rparr>, historyIndex := 0\<rparr>))
       = [\<lparr>snap_nodes = [], snap_edges = [], timestamp = 0\<rparr>,
          \<lparr>snap_nodes = [], snap_edges = [], timestamp = 7\<rparr>]"
  using history_never_exceeds_50 [of "[Save 1 [] [], Undo, Save 2 [] []]"
      "(initial_chart\<lparr>history :=
          replicate 50 \<lparr>snap_nodes = [], snap_edges = [], timestamp = 0\<rparr>, historyIndex := 49\<rparr>)"
      7 "[]" "[]"]
    history_never_exceeds_50 [of "[Save 1 [] [], Undo, Save 2 [] []]"
      "(initial_chart\<lparr>history :=
          replicate 3 \<lparr>snap_nodes = [], snap_edges = [], timestamp = 0\<rparr>, historyIndex := 0\<rparr>)"
      7 "[]" "[]"]
  by (simp add: initial_chart_def)

section \<open>Properties of the numbering\<close>

lemma dfs_order_Cons:
  "dfs_order ks adj (x # rest) V =
     (if x \<in> V \<or> x \<notin> set ks then dfs_order ks adj rest V
      else x # dfs_order ks adj (adj x) (insert x V)
           @ dfs_order ks adj rest (insert x (V \<union> set (dfs_order ks adj (adj x) (insert x V)))))"
  by (simp add: dfs_order.simps(2) Let_def)

lemma dfs_order_append:
  "dfs_order ks adj (xs @ ys) V =
     dfs_order ks adj xs V @ dfs_order ks adj ys (V \<union> set (dfs_order ks adj xs V))"
proof (induction xs arbitrary: V)
  case Nil
  then show ?case by simp
next
  case (Cons x xs)
  show ?case
    by (simp add: dfs_order_Cons Cons.IH Un_assoc insert_commute Un_insert_left Un_insert_right)
qed

lemma dfs_order_subset: "set (dfs_order ks adj ids V) \<subseteq> set ks - V"
  by (induction ks adj ids V rule: dfs_order.induct)
     (auto simp: dfs_order.simps(2) Let_def split: if_splits)

lemma dfs_order_distinct: "distinct (dfs_order ks adj ids V)"
proof (induction ks adj ids V rule: dfs_order.induct)
  case (1 ks adj V)
  then show ?case by simp
next
  case (2 ks adj x rest V)
  show ?case
  proof (cases "x \<in> V \<or> x \<notin> set ks")
    case True
    with 2 show ?thesis by (simp add: dfs_order.simps(2))
  next
    case False
    let ?inner = "dfs_order ks adj (adj x) (insert x V)"
    let ?here = "x # ?inner"
    have d1: "distinct ?inner" using 2(1) False by simp
    have d2: "distinct (dfs_order ks adj rest (V \<union> set ?here))"
      using 2(2) [of ?here] False by simp
    have s1: "set ?inner \<subseteq> set ks - insert x V" by (rule dfs_order_subset)
    have s2: "set (dfs_order ks adj rest (V \<union> set ?here)) \<subseteq> set ks - (V \<union> set ?here)"
      by (rule dfs_order_subset)
    from d1 d2 s1 s2 False show ?thesis
      by (auto simp: dfs_order.simps(2) Let_def)
  qed
qed

lemma dfs_order_cong_set:
  "set ks = set ks' \<Longrightarrow> dfs_order ks adj ids V = dfs_order ks' adj ids V"
proof (induction ks adj ids V rule: dfs_order.induct)
  case (1 ks adj V)
  then show ?case by simp
next
  case (2 ks adj x rest V)
  show ?case
  proof (cases "x \<in> V \<or> x \<notin> set ks")
    case True
    with 2 show ?thesis by (simp add: dfs_order.simps(2))
  next
    case False
    have i: "dfs_order ks adj (adj x) (insert x V) = dfs_order ks' adj (adj x) (insert x V)"
      using 2(1) False 2(3) by simp
    have o: "dfs_order ks adj rest (V \<union> set (x # dfs_order ks adj (adj x) (insert x V)))
        = dfs_order ks' adj rest (V \<union> set (x # dfs_order ks adj (adj x) (insert x V)))"
      using 2(2) [of "x # dfs_order ks adj (adj x) (insert x V)"] False 2(3) by simp
    from i o False 2(3) show ?thesis
      by (simp add: dfs_order.simps(2) Let_def)
  qed
qed

text \<open>Every visited id was asked for or is the target of an edge.\<close>

lemma dfs_order_origin:
  "set (dfs_order ks adj ids V) \<subseteq> set ids \<union> (\<Union>x. set (adj x))"
proof (induction ks adj ids V rule: dfs_order.induct)
  case (1 ks adj V)
  then show ?case by simp
next
  case (2 ks adj x rest V)
  show ?case
  proof (cases "x \<in> V \<or> x \<notin> set ks")
    case True
    with 2 show ?thesis by (auto simp: dfs_order.simps(2))
  next
    case False
    let ?here = "x # dfs_order ks adj (adj x) (insert x V)"
    have a: "set (dfs_order ks adj (adj x) (insert x V)) \<subseteq> set (adj x) \<union> (\<Union>x. set (adj x))"
      using 2(1) False by simp
    have b: "set (dfs_order ks adj rest (V \<union> set ?here)) \<subseteq> set rest \<union> (\<Union>x. set (adj x))"
      using 2(2) [of ?here] False by simp
    from a b False show ?thesis
      by (auto simp: dfs_order.simps(2) Let_def)
  qed
qed

lemma dfs_order_covers: "set ids \<inter> set ks \<subseteq> V \<union> set (dfs_order ks adj ids V)"
proof (induction ids arbitrary: V)
  case Nil
  then show ?case by simp
next
  case (Cons x xs)
  show ?case
    using Cons.IH [of V]
      Cons.IH [of "insert x (V \<union> set (dfs_order ks adj (adj x) (insert x V)))"]
    by (auto simp: dfs_order_Cons)
qed

text \<open>Asking again for the roots that the first traversal found gives the same order.\<close>

lemma dfs_order_restart:
  assumes "\<forall>x\<in>set ids. P x" and "\<forall>y z. z \<in> set (adj y) \<longrightarrow> \<not> P z"
  shows "dfs_order ks adj (filter P (dfs_order ks adj ids V)) V = dfs_order ks adj ids V"
  using assms(1)
proof (induction ids arbitrary: V)
  case Nil
  then show ?case by simp
next
  case (Cons x xs)
  show ?case
  proof (cases "x \<in> V \<or> x \<notin> set ks")
    case True
    with Cons show ?thesis by (simp add: dfs_order_Cons)
  next
    case False
    let ?inner = "dfs_order ks adj (adj x) (insert x V)"
    let ?V' = "insert x (V \<union> set ?inner)"
    have "set ?inner \<subseteq> set (adj x) \<union> (\<Union>y. set (adj y))" by (rule dfs_order_origin)
    with assms(2) have inner: "filter P ?inner = []" by (auto simp: filter_empty_conv)
    have Px: "P x" using Cons.prems by simp
    have rest: "dfs_order ks adj (filter P (dfs_order ks adj xs ?V')) ?V' = dfs_order ks adj xs ?V'"
      using Cons.IH [of ?V'] Cons.prems by simp
    have "filter P (dfs_order ks adj (x # xs) V) = x # filter P (dfs_order ks adj xs ?V')"
      using False Px inner by (simp add: dfs_order_Cons)
    then show ?thesis using False rest by (simp add: dfs_order_Cons)
  qed
qed

lemma dfs_order_hd:
  "x \<in> set ks \<Longrightarrow> x \<notin> V \<Longrightarrow> \<exists>r. dfs_order ks adj (x # xs) V = x # r"
  by (simp add: dfs_order_Cons)

lemma dfs_order_roots_kept:
  assumes "\<forall>x\<in>set ids. P x" and "\<forall>y z. z \<in> set (adj y) \<longrightarrow> \<not> P z"
    and "ids \<noteq> []" and "set ids \<subseteq> set ks"
  shows "filter P (dfs_order ks adj ids {}) \<noteq> []"
proof -
  obtain x xs where ids: "ids = x # xs" using assms(3) by (cases ids) auto
  then have "x \<in> set ks" "P x" using assms by auto
  then show ?thesis unfolding ids by (simp add: dfs_order_Cons)
qed

lemma push_numbered_eq:
  "push_numbered n tr =
     tr\<lparr>updatedNodes := updatedNodes tr @ [relabel n (counter tr)], counter := bump n (counter tr)\<rparr>"
  by (simp add: push_numbered_def relabel_def bump_def)

lemma numbered_append:
  "numbered (xs @ ys) c = numbered xs c @ numbered ys (fold bump xs c)"
  by (induction xs arbitrary: c) simp_all

lemma length_numbered [simp]: "length (numbered xs c) = length xs"
  by (induction xs arbitrary: c) simp_all

lemma node_id_relabel [simp]: "node_id (relabel n c) = node_id n"
  by (simp add: relabel_def)

lemma node_type_relabel [simp]: "node_type (relabel n c) = node_type n"
  by (simp add: relabel_def)

lemma bump_relabel [simp]: "bump (relabel n c) = bump n"
  by (simp add: bump_def fun_eq_iff)

lemma relabel_relabel [simp]: "relabel (relabel n c) c = relabel n c"
  by (simp add: relabel_def js_or_def)

lemma map_node_id_numbered [simp]: "map node_id (numbered xs c) = map node_id xs"
  by (induction xs arbitrary: c) simp_all

lemma numbered_idem: "numbered (numbered xs c) c = numbered xs c"
  by (induction xs arbitrary: c) simp_all

section \<open>The traversal in terms of the visiting order\<close>

lemma adjacency_of_fold:
  "(case fold (\<lambda>e adj. adj(source e \<mapsto>
            (case adj (source e) of None \<Rightarrow> [] | Some ts \<Rightarrow> ts) @ [target e])) es m0 x of
       None \<Rightarrow> [] | Some ts \<Rightarrow> ts)
   = (case m0 x of None \<Rightarrow> [] | Some ts \<Rightarrow> ts) @ map target (filter (\<lambda>e. source e = x) es)"
  by (induction es arbitrary: m0) simp_all

lemma adj_list_eq: "adj_list es x = map target (filter (\<lambda>e. source e = x) es)"
  unfolding adj_list_def adjacency_of_def by (simp add: adjacency_of_fold)

lemma adj_list_targets: "z \<in> set (adj_list es y) \<Longrightarrow> z \<in> set (map target es)"
  by (auto simp: adj_list_eq)

lemma nodeMap_of_None: "nodeMap_of ns x = None \<longleftrightarrow> x \<notin> set (map node_id ns)"
proof -
  have "nodeMap_of ns x = None \<longleftrightarrow> x \<notin> dom (nodeMap_of ns)" by (simp add: domIff)
  then show ?thesis by (simp add: dom_nodeMap_of)
qed

lemma traverseFlow_forEach_eq:
  "traverseFlow_forEach ns es ids tr =
     tr\<lparr>visited := visited tr \<union> set (dfs_order (map node_id ns) (adj_list es) ids (visited tr)),
        updatedNodes := updatedNodes tr
          @ numbered (map (the \<circ> nodeMap_of ns)
               (dfs_order (map node_id ns) (adj_list es) ids (visited tr))) (counter tr),
        counter := fold bump (map (the \<circ> nodeMap_of ns)
               (dfs_order (map node_id ns) (adj_list es) ids (visited tr))) (counter tr)\<rparr>"
proof (induction ns es ids tr rule: traverseFlow_forEach.induct)
  case (1 nodes edges tr)
  then show ?case by simp
next
  case (2 nodes edges nodeId rest tr)
  show ?case
  proof (cases "nodeId \<in> visited tr")
    case True
    with 2(2) show ?thesis by (simp add: dfs_order_Cons)
  next
    case nv: False
    show ?thesis
    proof (cases "nodeMap_of nodes nodeId")
      case None
      then have "nodeId \<notin> set (map node_id nodes)" by (simp add: nodeMap_of_None)
      with 2(2) nv None show ?thesis by (simp add: dfs_order_Cons)
    next
      case (Some n)
      then have mem: "nodeId \<in> set (map node_id nodes)"
        using nodeMap_of_None [of nodes nodeId] by auto
      let ?tr1 = "push_numbered n (tr\<lparr>visited := insert nodeId (visited tr)\<rparr>)"
      let ?inner = "traverseFlow_forEach nodes edges (adj_list edges nodeId) ?tr1"
      have step: "traverseFlow_forEach nodes edges (nodeId # rest) tr
          = traverseFlow_forEach nodes edges rest ?inner"
        using nv Some by (simp add: adj_list_def)
      have ih1: "?inner = ?tr1\<lparr>visited := visited ?tr1 \<union> set (dfs_order (map node_id nodes) (adj_list edges) (adj_list edges nodeId) (visited ?tr1)),
        updatedNodes := updatedNodes ?tr1
          @ numbered (map (the \<circ> nodeMap_of nodes)
               (dfs_order (map node_id nodes) (adj_list edges) (adj_list edges nodeId) (visited ?tr1))) (counter ?tr1),
        counter := fold bump (map (the \<circ> nodeMap_of nodes)
               (dfs_order (map node_id nodes) (adj_list edges) (adj_list edges nodeId) (visited ?tr1))) (counter ?tr1)\<rparr>"
        using 2(1) [OF nv Some, folded adj_list_def] .
      have ih2: "traverseFlow_forEach nodes edges rest ?inner =
          ?inner\<lparr>visited := visited ?inner \<union> set (dfs_order (map node_id nodes) (adj_list edges) rest (visited ?inner)),
        updatedNodes := updatedNodes ?inner
          @ numbered (map (the \<circ> nodeMap_of nodes)
               (dfs_order (map node_id nodes) (adj_list edges) rest (visited ?inner))) (counter ?inner),
        counter := fold bump (map (the \<circ> nodeMap_of nodes)
               (dfs_order (map node_id nodes) (adj_list edges) rest (visited ?inner))) (counter ?inner)\<rparr>"
      proof -
        have e: "(if nodeId \<in> visited tr then tr
            else case nodeMap_of nodes nodeId of
              None \<Rightarrow> tr
            | Some n \<Rightarrow> traverseFlow_forEach nodes edges (adj_list edges nodeId)
                  (push_numbered n (tr\<lparr>visited := insert nodeId (visited tr)\<rparr>))) = ?inner"
          using nv Some by simp
        show ?thesis using 2(2) [folded adj_list_def] unfolding e .
      qed
      show ?thesis
        unfolding step
        apply (subst ih2)
        apply (subst ih1)+
        using nv mem Some
        apply (simp add: dfs_order_Cons push_numbered_eq numbered_append Un_assoc insert_commute)
        done
    qed
  qed
qed

lemma orphan_fold_eq:
  "fold (\<lambda>n t. if node_id n \<notin> visited t then push_numbered n t else t) ns tr =
     tr\<lparr>updatedNodes := updatedNodes tr
           @ numbered (filter (\<lambda>n. node_id n \<notin> visited tr) ns) (counter tr),
        counter := fold bump (filter (\<lambda>n. node_id n \<notin> visited tr) ns) (counter tr)\<rparr>"
  by (induction ns arbitrary: tr) (simp_all add: push_numbered_eq)

lemma renumber_eq: "renumberByFlowSequence ns es = numbered (arrange ns es) 1"
proof (cases "ns = []")
  case True
  then show ?thesis
    by (simp add: renumberByFlowSequence_def arrange_def visit_order_def start_ids_def dfs_order_Cons)
next
  case False
  have ids: "map node_id (if 0 < length (filter (\<lambda>n. node_id n \<notin> set (map target es)) ns)
         then filter (\<lambda>n. node_id n \<notin> set (map target es)) ns else [hd ns]) = start_ids ns es"
    by (simp add: start_ids_def filter_map comp_def)
  show ?thesis
    using False
    unfolding renumberByFlowSequence_def Let_def ids traverseFlow_forEach_eq orphan_fold_eq
    by (simp add: arrange_def visit_order_def numbered_append)
qed

section \<open>The node map\<close>

lemma nodeMap_of_map_of: "nodeMap_of ns = map_of (rev (map (\<lambda>n. (node_id n, n)) ns))"
proof -
  have "fold (\<lambda>n m. m(node_id n \<mapsto> n)) ns m0 = m0 ++ map_of (rev (map (\<lambda>n. (node_id n, n)) ns))"
    for m0
  proof (induction ns arbitrary: m0)
    case Nil
    then show ?case by simp
  next
    case (Cons n ns)
    have a: "fold (\<lambda>n m. m(node_id n \<mapsto> n)) (n # ns) m0
        = m0(node_id n \<mapsto> n) ++ map_of (rev (map (\<lambda>n. (node_id n, n)) ns))"
      by (simp only: fold_Cons comp_apply Cons.IH)
    have b: "map_of (rev (map (\<lambda>n. (node_id n, n)) (n # ns)))
        = map_of [(node_id n, n)] ++ map_of (rev (map (\<lambda>n. (node_id n, n)) ns))"
      by (simp only: list.map rev.simps map_of_append)
    have c: "m0(node_id n \<mapsto> n) ++ map_of (rev (map (\<lambda>n. (node_id n, n)) ns))
        = m0 ++ (map_of [(node_id n, n)] ++ map_of (rev (map (\<lambda>n. (node_id n, n)) ns)))"
      by (rule ext) (simp add: map_add_def split: option.splits)
    show ?case unfolding a b c ..
  qed
  from this [of Map.empty] show ?thesis by (simp add: nodeMap_of_def)
qed

lemma nodeMap_of_append:
  "nodeMap_of (xs @ ys) x = (case nodeMap_of ys x of None \<Rightarrow> nodeMap_of xs x | Some n \<Rightarrow> Some n)"
  by (simp add: nodeMap_of_map_of map_add_def split: option.splits)

lemma nodeMap_of_Some_id: "nodeMap_of ns x = Some n \<Longrightarrow> node_id n = x \<and> n \<in> set ns"
  by (auto simp: nodeMap_of_map_of dest!: map_of_SomeD)

lemma nodeMap_of_distinct:
  "distinct (map node_id ns) \<Longrightarrow> n \<in> set ns \<Longrightarrow> nodeMap_of ns (node_id n) = Some n"
proof -
  assume d: "distinct (map node_id ns)" and n: "n \<in> set ns"
  have "map fst (rev (map (\<lambda>n. (node_id n, n)) ns)) = rev (map node_id ns)"
    by (simp add: rev_map comp_def)
  with d have "distinct (map fst (rev (map (\<lambda>n. (node_id n, n)) ns)))" by simp
  moreover from n have "(node_id n, n) \<in> set (rev (map (\<lambda>n. (node_id n, n)) ns))" by auto
  ultimately show ?thesis unfolding nodeMap_of_map_of by (rule map_of_is_SomeI)
qed

lemma map_nodeMap_of_ids:
  assumes "distinct (map node_id xs)"
  shows "map (the \<circ> nodeMap_of xs) (map node_id xs) = xs"
proof -
  have "\<forall>n\<in>set xs. (the \<circ> nodeMap_of xs) (node_id n) = n"
    using nodeMap_of_distinct [OF assms] by simp
  then show ?thesis by (simp add: map_idI)
qed

lemma node_id_nodeMap_of:
  assumes "set vs \<subseteq> set (map node_id ns)"
  shows "map node_id (map (the \<circ> nodeMap_of ns) vs) = vs"
proof -
  have "node_id (the (nodeMap_of ns x)) = x" if "x \<in> set vs" for x
  proof -
    from that assms have "nodeMap_of ns x \<noteq> None" by (auto simp: nodeMap_of_None)
    then obtain n where "nodeMap_of ns x = Some n" by auto
    then show ?thesis using nodeMap_of_Some_id by auto
  qed
  then show ?thesis by (simp add: map_idI)
qed

section \<open>Renumbering twice\<close>

lemma visit_order_subset: "set (visit_order ns es) \<subseteq> set (map node_id ns)"
  unfolding visit_order_def using dfs_order_subset by blast

lemma visit_order_distinct: "distinct (visit_order ns es)"
  unfolding visit_order_def by (rule dfs_order_distinct)

lemma map_node_id_arrange:
  "map node_id (arrange ns es)
     = visit_order ns es @ filter (\<lambda>i. i \<notin> set (visit_order ns es)) (map node_id ns)"
  unfolding arrange_def map_append node_id_nodeMap_of [OF visit_order_subset]
  by (simp add: filter_map comp_def)

lemma set_node_id_arrange: "set (map node_id (arrange ns es)) = set (map node_id ns)"
  unfolding map_node_id_arrange using visit_order_subset [of ns es] by auto

text \<open>Every node without an incoming edge is visited by the traversal.\<close>

lemma roots_visited:
  assumes "i \<in> set (map node_id ns)" and "i \<notin> set (map target es)"
  shows "i \<in> set (visit_order ns es)"
proof -
  from assms have mem: "i \<in> set (filter (\<lambda>i. i \<notin> set (map target es)) (map node_id ns))"
    by simp
  have "i \<in> set (start_ids ns es)"
  proof (cases "filter (\<lambda>i. i \<notin> set (map target es)) (map node_id ns) = []")
    case True
    from mem show ?thesis unfolding True by simp
  next
    case False
    have "start_ids ns es = filter (\<lambda>i. i \<notin> set (map target es)) (map node_id ns)"
      unfolding start_ids_def by (rule if_P [OF False])
    with mem show ?thesis by simp
  qed
  with assms(1) show ?thesis
    using dfs_order_covers [of "start_ids ns es" "map node_id ns" "{}" "adj_list es"]
    by (auto simp: visit_order_def)
qed

lemma filter_roots_arrange:
  "filter (\<lambda>i. i \<notin> set (map target es)) (map node_id (arrange ns es))
     = filter (\<lambda>i. i \<notin> set (map target es)) (visit_order ns es)"
proof -
  have "filter (\<lambda>i. i \<notin> set (map target es))
          (filter (\<lambda>i. i \<notin> set (visit_order ns es)) (map node_id ns)) = []"
    using roots_visited [of _ ns es] by (auto simp: filter_empty_conv)
  then show ?thesis by (simp add: map_node_id_arrange)
qed

lemma visit_order_arranged:
  assumes ids: "map node_id ms = map node_id (arrange ns es)"
  shows "visit_order ms es = visit_order ns es"
proof (cases "ns = []")
  case True
  then have "arrange ns es = []"
    by (simp add: arrange_def visit_order_def start_ids_def dfs_order_Cons)
  with ids have "ms = []" by simp
  with True show ?thesis by simp
next
  case ne: False
  let ?P = "\<lambda>i. i \<notin> set (map target es)"
  have sets: "set (map node_id ms) = set (map node_id ns)"
    unfolding ids by (rule set_node_id_arrange)
  have adjP: "\<forall>y z. z \<in> set (adj_list es y) \<longrightarrow> \<not> ?P z"
    using adj_list_targets by blast
  have roots_ms: "filter ?P (map node_id ms) = filter ?P (visit_order ns es)"
    unfolding ids by (rule filter_roots_arrange)
  show ?thesis
  proof (cases "filter ?P (map node_id ns) = []")
    case False
    then have st: "start_ids ns es = filter ?P (map node_id ns)"
      by (simp add: start_ids_def)
    have "filter ?P (dfs_order (map node_id ns) (adj_list es) (start_ids ns es) {}) \<noteq> []"
      by (rule dfs_order_roots_kept [OF _ adjP]) (use False st in auto)
    then have ne': "filter ?P (map node_id ms) \<noteq> []"
      unfolding roots_ms visit_order_def .
    have "start_ids ms es = filter ?P (map node_id ms)"
      unfolding start_ids_def by (rule if_P [OF ne'])
    then have st': "start_ids ms es = filter ?P (visit_order ns es)"
      unfolding roots_ms .
    have "visit_order ms es
        = dfs_order (map node_id ns) (adj_list es) (filter ?P (visit_order ns es)) {}"
      unfolding visit_order_def [of ms] st' by (rule dfs_order_cong_set [OF sets])
    also have "\<dots> = visit_order ns es"
      unfolding visit_order_def
      by (rule dfs_order_restart [OF _ adjP]) (simp add: st)
    finally show ?thesis .
  next
    case True
    then have st: "start_ids ns es = [node_id (hd ns)]"
      by (simp add: start_ids_def)
    have hd_in: "node_id (hd ns) \<in> set (map node_id ns)" using ne by simp
    then obtain r where r: "visit_order ns es = node_id (hd ns) # r"
      unfolding visit_order_def st using dfs_order_hd [of "node_id (hd ns)" "map node_id ns" "{}"]
      by blast
    have "map node_id ms = node_id (hd ns) # r
        @ filter (\<lambda>i. i \<notin> set (visit_order ns es)) (map node_id ns)"
      unfolding ids map_node_id_arrange r by simp
    then have hd_ms: "node_id (hd ms) = node_id (hd ns)" by (cases ms) auto
    have "filter ?P (map node_id ms) = []"
      using True sets by (auto simp: filter_empty_conv)
    then have st': "start_ids ms es = [node_id (hd ns)]"
      by (simp add: start_ids_def hd_ms)
    show ?thesis
      unfolding visit_order_def st st' by (rule dfs_order_cong_set [OF sets])
  qed
qed

lemma filter_ids_none: "set (map f xs) \<subseteq> S \<Longrightarrow> filter (\<lambda>n. f n \<notin> S) xs = []"
  by (induction xs) auto

lemma filter_ids_all: "set (map f xs) \<inter> S = {} \<Longrightarrow> filter (\<lambda>n. f n \<notin> S) xs = xs"
  by (induction xs) auto

lemma arrange_numbered_arrange:
  "arrange (numbered (arrange ns es) c) es = numbered (arrange ns es) c"
proof -
  let ?vs = "visit_order ns es"
  let ?A1 = "map (the \<circ> nodeMap_of ns) ?vs"
  let ?A2 = "filter (\<lambda>n. node_id n \<notin> set ?vs) ns"
  let ?R1 = "numbered ?A1 c"
  let ?R2 = "numbered ?A2 (fold bump ?A1 c)"
  let ?R = "numbered (arrange ns es) c"
  have R: "?R = ?R1 @ ?R2" by (simp add: arrange_def numbered_append)
  have vo: "visit_order ?R es = ?vs" by (rule visit_order_arranged) simp
  have ids1: "map node_id ?R1 = ?vs"
    unfolding map_node_id_numbered by (rule node_id_nodeMap_of [OF visit_order_subset])
  have ids2: "set (map node_id ?R2) \<inter> set ?vs = {}" by auto
  have d1: "distinct (map node_id ?R1)" unfolding ids1 by (rule visit_order_distinct)
  have "(the \<circ> nodeMap_of (?R1 @ ?R2)) x = (the \<circ> nodeMap_of ?R1) x" if "x \<in> set ?vs" for x
  proof -
    from that ids2 have "x \<notin> set (map node_id ?R2)" by blast
    then have "nodeMap_of ?R2 x = None" by (simp only: nodeMap_of_None not_False_eq_True)
    then show ?thesis by (simp add: nodeMap_of_append)
  qed
  then have "map (the \<circ> nodeMap_of (?R1 @ ?R2)) ?vs = map (the \<circ> nodeMap_of ?R1) ?vs"
    by simp
  also have "\<dots> = map (the \<circ> nodeMap_of ?R1) (map node_id ?R1)" by (simp only: ids1)
  also have "\<dots> = ?R1" by (rule map_nodeMap_of_ids [OF d1])
  finally have first: "map (the \<circ> nodeMap_of (?R1 @ ?R2)) ?vs = ?R1" .
  have f1: "filter (\<lambda>n. node_id n \<notin> set ?vs) ?R1 = []"
    by (rule filter_ids_none) (simp only: ids1 subset_refl)
  have f2: "filter (\<lambda>n. node_id n \<notin> set ?vs) ?R2 = ?R2"
    by (rule filter_ids_all [OF ids2])
  show ?thesis
    unfolding arrange_def [of ?R] vo unfolding R first filter_append f1 f2 by simp
qed

lemma renumber_twice:
  "renumberByFlowSequence (renumberByFlowSequence ns es) es = renumberByFlowSequence ns es"
  by (simp add: renumber_eq arrange_numbered_arrange numbered_idem)

section \<open>Decimal numerals\<close>

lemma string_of_nat_nonempty: "string_of_nat n \<noteq> []"
  by (subst string_of_nat.simps) simp

lemma digit_char_inj: "a < 10 \<Longrightarrow> b < 10 \<Longrightarrow> digit_char a = digit_char b \<Longrightarrow> a = b"
  by (simp add: digit_char_def nth_eq_iff_index_eq)

lemma string_of_nat_inj: "string_of_nat a = string_of_nat b \<Longrightarrow> a = b"
proof (induction a arbitrary: b rule: string_of_nat.induct)
  case (1 n)
  show ?case
  proof (cases "n < 10")
    case small: True
    show ?thesis
    proof (cases "b < 10")
      case True
      with small 1(2) show ?thesis
        by (simp add: string_of_nat.simps [of n] string_of_nat.simps [of b] digit_char_inj)
    next
      case False
      with small 1(2) string_of_nat_nonempty [of "b div 10"] show ?thesis
        by (simp add: string_of_nat.simps [of n] string_of_nat.simps [of b])
    qed
  next
    case big: False
    show ?thesis
    proof (cases "b < 10")
      case True
      with big 1(2) string_of_nat_nonempty [of "n div 10"] show ?thesis
        by (simp add: string_of_nat.simps [of n] string_of_nat.simps [of b])
    next
      case False
      with big 1(2) have eq: "string_of_nat (n div 10) = string_of_nat (b div 10)"
        and dg: "digit_char (n mod 10) = digit_char (b mod 10)"
        by (simp_all add: string_of_nat.simps [of n] string_of_nat.simps [of b])
      from 1(1) [OF big eq] have "n div 10 = b div 10" .
      moreover from dg have "n mod 10 = b mod 10" by (intro digit_char_inj) simp_all
      ultimately show ?thesis by (metis div_mult_mod_eq)
    qed
  qed
qed

section \<open>What the numbering assigns\<close>

lemma is_process_relabel [simp]: "is_process (relabel n c) = is_process n"
  by (simp add: is_process_def)

lemma numbered_process_ids:
  "map (\<lambda>n. logical_id (data n)) (filter is_process (numbered xs c))
     = map (\<lambda>k. ''1.1.1.'' @ string_of_nat k) [c ..< c + length (filter is_process xs)]"
proof (induction xs arbitrary: c)
  case Nil
  then show ?case by simp
next
  case (Cons n xs)
  show ?case
  proof (cases "is_process n")
    case True
    then have "bump n c = Suc c" by (simp add: bump_def is_process_def)
    moreover have "logical_id (data (relabel n c)) = ''1.1.1.'' @ string_of_nat c"
      using True by (simp add: relabel_def is_process_def)
    ultimately show ?thesis using True Cons.IH [of "Suc c"]
      by (simp add: upt_conv_Cons del: upt_Suc)
  next
    case False
    then have "bump n c = c" by (simp add: bump_def is_process_def)
    with False Cons.IH [of c] show ?thesis by simp
  qed
qed

lemma process_ids_distinct:
  "distinct (map (\<lambda>n. logical_id (data n)) (filter is_process (numbered xs c)))"
  unfolding numbered_process_ids
  by (simp add: distinct_map inj_on_def string_of_nat_inj)

section \<open>The numbering keeps the nodes\<close>

lemma without_logical_id_relabel [simp]:
  "without_logical_id (relabel n c) = without_logical_id n"
  by (simp add: without_logical_id_def relabel_def)

lemma map_without_logical_id_numbered:
  "map without_logical_id (numbered xs c) = map without_logical_id xs"
  by (induction xs arbitrary: c) simp_all

lemma map_map_inverse: "(\<And>x. x \<in> set xs \<Longrightarrow> f (g x) = x) \<Longrightarrow> map f (map g xs) = xs"
  by (induction xs) simp_all

lemma mset_arrange:
  assumes d: "distinct (map node_id ns)"
  shows "mset (arrange ns es) = mset ns"
proof -
  let ?vs = "visit_order ns es"
  let ?F = "filter (\<lambda>n. node_id n \<in> set ?vs) ns"
  have dF: "distinct (map node_id ?F)" using d by (simp add: distinct_map_filter)
  have "set (map node_id ?F) = set ?vs" using visit_order_subset [of ns es] by auto
  then have "mset (map node_id ?F) = mset ?vs"
    using set_eq_iff_mset_eq_distinct [OF dF visit_order_distinct [of ns es]] by blast
  then have "mset (map (the \<circ> nodeMap_of ns) ?vs)
      = mset (map (the \<circ> nodeMap_of ns) (map node_id ?F))"
    by (metis mset_map)
  also have "map (the \<circ> nodeMap_of ns) (map node_id ?F) = ?F"
    by (rule map_map_inverse) (simp add: nodeMap_of_distinct [OF d])
  finally have "mset (map (the \<circ> nodeMap_of ns) ?vs) = mset ?F" .
  then show ?thesis
    unfolding arrange_def by (simp only: mset_append) (simp add: union_commute)
qed

lemma renumber_keeps_nodes:
  assumes "distinct (map node_id ns)"
  shows "mset (map without_logical_id (renumberByFlowSequence ns es))
      = mset (map without_logical_id ns)"
  unfolding renumber_eq map_without_logical_id_numbered
  using mset_arrange [OF assms, of es] by (metis mset_map)

section \<open>Numbers along the traversal\<close>

lemma numbered_nth:
  "i < length xs \<Longrightarrow>
     numbered xs c ! i = relabel (xs ! i) (c + length (filter is_process (take i xs)))"
proof (induction xs arbitrary: c i)
  case Nil
  then show ?case by simp
next
  case (Cons n xs)
  show ?case
  proof (cases i)
    case 0
    then show ?thesis by simp
  next
    case (Suc k)
    with Cons.prems have k: "k < length xs" by simp
    have "bump n c + length (filter is_process (take k xs))
        = c + length (filter is_process (take (Suc k) (n # xs)))"
      by (simp add: bump_def is_process_def)
    with Cons.IH [OF k, of "bump n c"] Suc show ?thesis by simp
  qed
qed

lemma filter_is_process_numbered:
  "length (filter is_process (take i (numbered xs c))) = length (filter is_process (take i xs))"
proof (induction xs arbitrary: c i)
  case Nil
  then show ?case by simp
next
  case (Cons n xs)
  then show ?case by (cases i) simp_all
qed

lemma renumber_process_nth:
  assumes "i < length (renumberByFlowSequence ns es)"
    and "is_process (renumberByFlowSequence ns es ! i)"
  shows "logical_id (data (renumberByFlowSequence ns es ! i))
     = ''1.1.1.'' @ string_of_nat
         (1 + length (filter is_process (take i (renumberByFlowSequence ns es))))"
proof -
  let ?A = "arrange ns es"
  from assms(1) have i: "i < length ?A" by (simp add: renumber_eq)
  have nth: "numbered ?A 1 ! i = relabel (?A ! i) (1 + length (filter is_process (take i ?A)))"
    by (rule numbered_nth [OF i])
  with assms(2) have "is_process (?A ! i)" by (simp add: renumber_eq)
  then have "logical_id (data (numbered ?A 1 ! i))
      = ''1.1.1.'' @ string_of_nat (1 + length (filter is_process (take i ?A)))"
    unfolding nth by (simp add: relabel_def is_process_def)
  then show ?thesis by (simp add: renumber_eq filter_is_process_numbered)
qed

lemma map_snd_dfs_calls: "map snd (dfs_calls ks adj caller ids V) = dfs_order ks adj ids V"
proof (induction ks adj caller ids V rule: dfs_calls.induct)
  case (1 ks adj caller V)
  then show ?case by simp
next
  case (2 ks adj caller x rest V)
  show ?case
  proof (cases "x \<in> V \<or> x \<notin> set ks")
    case True
    with 2(2) [of "[]"] show ?thesis by (simp add: dfs_calls.simps(2) dfs_order_Cons)
  next
    case False
    let ?inner = "dfs_calls ks adj (Some x) (adj x) (insert x V)"
    have i: "map snd ?inner = dfs_order ks adj (adj x) (insert x V)"
      using 2(1) False by simp
    have s: "snd ` set ?inner = set (dfs_order ks adj (adj x) (insert x V))"
      using i by (metis list.set_map)
    have o: "map snd (dfs_calls ks adj caller rest (V \<union> snd ` set ((caller, x) # ?inner)))
        = dfs_order ks adj rest (V \<union> snd ` set ((caller, x) # ?inner))"
      using 2(2) [of "(caller, x) # ?inner"] False by simp
    from False i o show ?thesis
      by (simp add: dfs_calls.simps(2) dfs_order_Cons Let_def s Un_commute insert_commute)
  qed
qed

lemma before_append_left: "before xs u v \<Longrightarrow> before (ys @ xs) u v"
  unfolding before_def by (metis append.assoc)

lemma before_append_right: "before xs u v \<Longrightarrow> before (xs @ ys) u v"
  unfolding before_def by (metis append.assoc append_Cons)

lemma before_Cons: "before xs u v \<Longrightarrow> before (x # xs) u v"
  using before_append_left [of xs u v "[x]"] by simp

lemma before_hd: "v \<in> set xs \<Longrightarrow> before (u # xs @ ys) u v"
proof -
  assume "v \<in> set xs"
  then obtain b c where "xs = b @ v # c" by (meson split_list)
  then have "u # xs @ ys = [] @ u # b @ v # (c @ ys)" by simp
  then show ?thesis unfolding before_def by blast
qed

text \<open>A call that visits \<open>v\<close> was made for one of the ids asked for, or from the visit of
  a node \<open>u\<close> that has an edge to \<open>v\<close> and was visited before.\<close>

lemma dfs_calls_parent:
  "(q, v) \<in> set (dfs_calls ks adj caller ids V) \<Longrightarrow>
     (q = caller \<and> v \<in> set ids)
     \<or> (\<exists>u. q = Some u \<and> v \<in> set (adj u) \<and> before (dfs_order ks adj ids V) u v)"
proof (induction ks adj caller ids V rule: dfs_calls.induct)
  case (1 ks adj caller V)
  then show ?case by simp
next
  case (2 ks adj caller x rest V)
  note IH1 = 2(1) and IH2 = 2(2) and prem = 2(3)
  show ?case
  proof (cases "x \<in> V \<or> x \<notin> set ks")
    case True
    with prem have "(q, v) \<in> set (dfs_calls ks adj caller rest V)"
      by (simp add: dfs_calls.simps(2))
    with IH2 [of "[]"] True
    have "(q = caller \<and> v \<in> set rest)
     \<or> (\<exists>u. q = Some u \<and> v \<in> set (adj u) \<and> before (dfs_order ks adj rest V) u v)"
      by simp
    with True show ?thesis by (auto simp: dfs_order_Cons)
  next
    case False
    let ?inner = "dfs_calls ks adj (Some x) (adj x) (insert x V)"
    let ?oi = "dfs_order ks adj (adj x) (insert x V)"
    let ?V' = "insert x (V \<union> set ?oi)"
    let ?outer = "dfs_calls ks adj caller rest ?V'"
    let ?oo = "dfs_order ks adj rest ?V'"
    have s: "snd ` set ?inner = set ?oi"
      using map_snd_dfs_calls [of ks adj "Some x" "adj x" "insert x V"] by (metis list.set_map)
    have L: "dfs_calls ks adj caller (x # rest) V = (caller, x) # ?inner @ ?outer"
      using False by (simp add: dfs_calls.simps(2) Let_def s Un_commute insert_commute)
    have O: "dfs_order ks adj (x # rest) V = x # ?oi @ ?oo"
      using False by (simp add: dfs_order_Cons)
    from prem L consider "(q, v) = (caller, x)" | "(q, v) \<in> set ?inner" | "(q, v) \<in> set ?outer"
      by auto
    then show ?thesis
    proof cases
      case 1
      then show ?thesis by simp
    next
      case 2
      then have vin: "v \<in> set ?oi" using s by (metis image_eqI snd_conv)
      from IH1 False 2
      have "(q = Some x \<and> v \<in> set (adj x))
          \<or> (\<exists>u. q = Some u \<and> v \<in> set (adj u) \<and> before ?oi u v)"
        by simp
      then show ?thesis
      proof
        assume "q = Some x \<and> v \<in> set (adj x)"
        with vin show ?thesis unfolding O using before_hd [of v ?oi x ?oo] by blast
      next
        assume "\<exists>u. q = Some u \<and> v \<in> set (adj u) \<and> before ?oi u v"
        then obtain u where u: "q = Some u" "v \<in> set (adj u)" "before ?oi u v" by blast
        from u(3) have "before (x # ?oi @ ?oo) u v"
          by (intro before_Cons before_append_right)
        with u show ?thesis unfolding O by blast
      qed
    next
      case 3
      have h: "V \<union> snd ` set ((caller, x) # ?inner) = ?V'" by (simp add: s Un_commute insert_commute)
      from IH2 [of "(caller, x) # ?inner"] False 3
      have "(q = caller \<and> v \<in> set rest)
          \<or> (\<exists>u. q = Some u \<and> v \<in> set (adj u) \<and> before ?oo u v)"
        unfolding h by simp
      then show ?thesis
      proof
        assume "q = caller \<and> v \<in> set rest"
        then show ?thesis by simp
      next
        assume "\<exists>u. q = Some u \<and> v \<in> set (adj u) \<and> before ?oo u v"
        then obtain u where u: "q = Some u" "v \<in> set (adj u)" "before ?oo u v" by blast
        from u(3) have "before ((x # ?oi) @ ?oo) u v" by (rule before_append_left)
        with u show ?thesis unfolding O by auto
      qed
    qed
  qed
qed

lemma position_of_Cons:
  "position_of (y # xs) x = (if y = x then 0 else Suc (position_of xs x))"
  by (simp add: position_of_def)

lemma position_of_skip: "x \<notin> set a \<Longrightarrow> position_of (a @ ys) x = length a + position_of ys x"
  by (induction a) (auto simp: position_of_Cons position_of_def)

lemma position_of_append: "x \<in> set xs \<Longrightarrow> position_of (xs @ ys) x = position_of xs x"
  by (induction xs) (auto simp: position_of_Cons)

lemma position_of_nth:
  "x \<in> set xs \<Longrightarrow> position_of xs x < length xs \<and> xs ! position_of xs x = x"
  by (induction xs) (auto simp: position_of_Cons)

lemma position_of_before:
  assumes "distinct xs" and "before xs u v"
  shows "position_of xs u < position_of xs v"
proof -
  from assms(2) obtain a b c where xs: "xs = a @ u # b @ v # c" unfolding before_def by blast
  with assms(1) have ua: "u \<notin> set a" and va: "v \<notin> set a" and uv: "u \<noteq> v"
    by auto
  have "position_of xs u = length a"
    unfolding xs using ua by (simp add: position_of_skip position_of_Cons)
  moreover have "position_of xs v = length a + Suc (position_of (b @ v # c) v)"
    unfolding xs using va uv by (simp add: position_of_skip position_of_Cons)
  ultimately show ?thesis by simp
qed

lemma call_chain_sorted:
  assumes calls: "\<And>q v. (q, v) \<in> set calls \<Longrightarrow>
      v \<in> set vs \<and> (\<forall>u. q = Some u \<longrightarrow> position_of vs u < position_of vs v)"
  shows "call_chain calls caller path \<Longrightarrow>
     sorted_wrt (<) (map (position_of vs) path) \<and> set path \<subseteq> set vs
     \<and> (\<forall>u. caller = Some u \<longrightarrow> (\<forall>w\<in>set path. position_of vs u < position_of vs w))"
proof (induction path arbitrary: caller)
  case Nil
  then show ?case by simp
next
  case (Cons v path)
  then have c: "(caller, v) \<in> set calls" and rest: "call_chain calls (Some v) path" by simp_all
  from Cons.IH [OF rest]
  have s: "sorted_wrt (<) (map (position_of vs) path)" and sub: "set path \<subseteq> set vs"
    and below: "\<forall>w\<in>set path. position_of vs v < position_of vs w"
    by simp_all
  from calls [OF c] have v: "v \<in> set vs"
    and up: "\<forall>u. caller = Some u \<longrightarrow> position_of vs u < position_of vs v" by simp_all
  from s sub below v up show ?case by (auto intro: less_trans)
qed

lemma traversal_calls_visit_order: "map snd (traversal_calls ns es) = visit_order ns es"
  by (simp add: traversal_calls_def visit_order_def map_snd_dfs_calls)

lemma traversal_path_positions:
  assumes "traversal_path ns es path"
  shows "sorted_wrt (<) (map (position_of (map node_id (renumberByFlowSequence ns es))) path)
     \<and> (\<forall>v\<in>set path.
          position_of (map node_id (renumberByFlowSequence ns es)) v
            < length (renumberByFlowSequence ns es)
          \<and> node_id (renumberByFlowSequence ns es
                ! position_of (map node_id (renumberByFlowSequence ns es)) v) = v)"
proof -
  let ?vs = "visit_order ns es"
  let ?ids = "map node_id (renumberByFlowSequence ns es)"
  have ids: "?ids = ?vs @ filter (\<lambda>i. i \<notin> set ?vs) (map node_id ns)"
    by (simp add: renumber_eq map_node_id_arrange)
  have calls: "v \<in> set ?vs \<and> (\<forall>u. q = Some u \<longrightarrow> position_of ?vs u < position_of ?vs v)"
    if "(q, v) \<in> set (traversal_calls ns es)" for q v
  proof -
    from that have "v \<in> snd ` set (traversal_calls ns es)" by (metis image_eqI snd_conv)
    then have v: "v \<in> set ?vs"
      using traversal_calls_visit_order [of ns es] by (metis list.set_map)
    from dfs_calls_parent [OF that [unfolded traversal_calls_def]]
    have "q = None \<or> (\<exists>u. q = Some u \<and> before ?vs u v)"
      unfolding visit_order_def by blast
    then have "\<forall>u. q = Some u \<longrightarrow> position_of ?vs u < position_of ?vs v"
      using position_of_before [OF visit_order_distinct] by auto
    with v show ?thesis by simp
  qed
  from call_chain_sorted [where vs = ?vs, OF calls, of "traversal_calls ns es" None path] assms
  have s: "sorted_wrt (<) (map (position_of ?vs) path)" and sub: "set path \<subseteq> set ?vs"
    unfolding traversal_path_def by simp_all
  have pos: "position_of ?ids v = position_of ?vs v" if "v \<in> set path" for v
    unfolding ids using that sub by (simp add: position_of_append subsetD)
  then have same: "map (position_of ?ids) path = map (position_of ?vs) path"
    by (intro map_cong refl)
  have a: "sorted_wrt (<) (map (position_of ?ids) path)" unfolding same by (rule s)
  have b: "position_of ?ids v < length (renumberByFlowSequence ns es)
      \<and> node_id (renumberByFlowSequence ns es ! position_of ?ids v) = v" if "v \<in> set path" for v
  proof -
    from that sub have "v \<in> set ?ids" unfolding ids by auto
    from position_of_nth [OF this] show ?thesis by (simp add: nth_map [symmetric] del: nth_map)
  qed
  from a b show ?thesis by blast
qed

lemma traversal_calls_origin:
  assumes "(q, v) \<in> set (traversal_calls ns es)"
  shows "case q of None \<Rightarrow> v \<in> set (start_ids ns es)
         | Some u \<Rightarrow> \<exists>e \<in> set es. source e = u \<and> target e = v"
proof -
  from dfs_calls_parent [OF assms [unfolded traversal_calls_def]]
  have "(q = None \<and> v \<in> set (start_ids ns es))
      \<or> (\<exists>u. q = Some u \<and> v \<in> set (adj_list es u))"
    by blast
  then show ?thesis by (auto simp: adj_list_eq)
qed

lemma traversal_calls_prefix:
  "map snd (traversal_calls ns es)
     = take (length (traversal_calls ns es)) (map node_id (renumberByFlowSequence ns es))"
proof -
  have "map node_id (renumberByFlowSequence ns es)
      = visit_order ns es @ filter (\<lambda>i. i \<notin> set (visit_order ns es)) (map node_id ns)"
    by (simp add: renumber_eq map_node_id_arrange)
  moreover have "length (traversal_calls ns es) = length (visit_order ns es)"
    using traversal_calls_visit_order [of ns es] by (metis length_map)
  ultimately show ?thesis by (simp add: traversal_calls_visit_order)
qed

lemma process_number_mono:
  assumes "i < j" and "j \<le> length ns" and "is_process (ns ! i)"
  shows "process_number ns i < process_number ns j"
proof -
  from assms(1,2) have i: "i < length ns" by simp
  have "take j ns = take i ns @ ns ! i # take (j - Suc i) (drop (Suc i) ns)"
  proof -
    have "take j ns = take i (take j ns) @ drop i (take j ns)" by (simp only: append_take_drop_id)
    also have "take i (take j ns) = take i ns" using assms(1) by (simp add: min_def)
    also have "drop i (take j ns) = take (j - i) (drop i ns)" by (simp add: drop_take)
    also have "drop i ns = ns ! i # drop (Suc i) ns" using i by (simp add: Cons_nth_drop_Suc)
    also have "take (j - i) (ns ! i # drop (Suc i) ns)
        = ns ! i # take (j - Suc i) (drop (Suc i) ns)"
    proof -
      from assms(1) have "j - i = Suc (j - Suc i)" by simp
      then show ?thesis by (simp only: take_Suc_Cons)
    qed
    finally show ?thesis .
  qed
  then have "length (filter is_process (take j ns))
      = length (filter is_process (take i ns)) + 1
        + length (filter is_process (take (j - Suc i) (drop (Suc i) ns)))"
    using assms(3) by simp
  then show ?thesis by (simp add: process_number_def)
qed

lemma traversal_path_numbers:
  assumes "traversal_path ns es path"
  shows "sorted_wrt (<)
     (map (\<lambda>v. process_number (renumberByFlowSequence ns es)
                (position_of (map node_id (renumberByFlowSequence ns es)) v))
        (filter (\<lambda>v. is_process (renumberByFlowSequence ns es
                ! position_of (map node_id (renumberByFlowSequence ns es)) v)) path))"
proof -
  let ?out = "renumberByFlowSequence ns es"
  let ?pos = "position_of (map node_id ?out)"
  let ?P = "\<lambda>v. is_process (?out ! ?pos v)"
  from traversal_path_positions [OF assms]
  have s: "sorted_wrt (<) (map ?pos path)" and b: "\<forall>v \<in> set path. ?pos v < length ?out"
    by simp_all
  from s have "sorted_wrt (\<lambda>u v. ?pos u < ?pos v) path" by (simp add: sorted_wrt_map)
  then have "sorted_wrt (\<lambda>u v. ?pos u < ?pos v) (filter ?P path)" by (rule sorted_wrt_filter)
  then have "sorted_wrt (\<lambda>u v. process_number ?out (?pos u) < process_number ?out (?pos v))
      (filter ?P path)"
  proof (rule sorted_wrt_mono_rel [rotated])
    fix u v
    assume u: "u \<in> set (filter ?P path)" and v: "v \<in> set (filter ?P path)"
      and lt: "?pos u < ?pos v"
    from v b have "?pos v \<le> length ?out" by auto
    moreover from u have "is_process (?out ! ?pos u)" by simp
    ultimately show "process_number ?out (?pos u) < process_number ?out (?pos v)"
      using lt by (intro process_number_mono)
  qed
  then show ?thesis by (simp add: sorted_wrt_map)
qed

lemmas renumber_eval =
  renumberByFlowSequence_def nodeMap_of_def adjacency_of_def push_numbered_def
  keeps_logical_id_def js_or_def string_of_nat.simps digit_char_def
  example_node_def example_edge_def

lemmas calls_eval =
  traversal_path_def traversal_calls_def start_ids_def adj_list_def adjacency_of_def
  dfs_calls.simps example_node_def example_edge_def

lemma call_chain_snoc:
  "call_chain calls c (path @ [v])
     = (call_chain calls c path \<and> ((if path = [] then c else Some (last path)), v) \<in> set calls)"
  by (induction path arbitrary: c) auto

lemma call_chain_edge_chain:
  assumes "\<And>q v. (q, v) \<in> set calls \<Longrightarrow>
      (case q of None \<Rightarrow> v \<in> S | Some u \<Rightarrow> \<exists>e \<in> set es. source e = u \<and> target e = v)"
  shows "call_chain calls (Some u) path \<Longrightarrow> edge_chain es u path"
proof (induction path arbitrary: u)
  case Nil
  then show ?case by simp
next
  case (Cons v path)
  then have c: "(Some u, v) \<in> set calls" and r: "call_chain calls (Some v) path" by simp_all
  from assms [OF c] have "\<exists>e \<in> set es. source e = u \<and> target e = v" by simp
  with Cons.IH [OF r] show ?case by simp
qed

lemma traversal_path_edge_path:
  assumes "traversal_path ns es path"
  shows "edge_path ns es path"
proof (cases path)
  case Nil
  then show ?thesis by (simp add: edge_path_def)
next
  case (Cons r rest)
  with assms have c: "(None, r) \<in> set (traversal_calls ns es)"
    and ch: "call_chain (traversal_calls ns es) (Some r) rest"
    by (simp_all add: traversal_path_def)
  from traversal_calls_origin [OF c] have "r \<in> set (start_ids ns es)" by simp
  moreover have "edge_chain es r rest"
    by (rule call_chain_edge_chain [OF _ ch, where S = "set (start_ids ns es)"])
       (rule traversal_calls_origin)
  ultimately show ?thesis using Cons by (simp add: edge_path_def)
qed

text \<open>Every node that the traversal visits is the end of a traversal path.\<close>

lemma visited_on_traversal_path:
  assumes "v \<in> set (visit_order ns es)"
  shows "\<exists>path. traversal_path ns es (path @ [v])"
  using assms
proof (induction v rule: measure_induct_rule [of "position_of (visit_order ns es)"])
  case (less v)
  let ?L = "traversal_calls ns es"
  from less.prems have "v \<in> snd ` set ?L"
    using traversal_calls_visit_order [of ns es] by (metis list.set_map)
  then obtain q where q: "(q, v) \<in> set ?L" by auto
  show ?case
  proof (cases q)
    case None
    with q have "traversal_path ns es ([] @ [v])" by (simp add: traversal_path_def)
    then show ?thesis by blast
  next
    case (Some u)
    from dfs_calls_parent [OF q [unfolded traversal_calls_def]] Some
    have b: "before (visit_order ns es) u v" unfolding visit_order_def by auto
    then have u: "u \<in> set (visit_order ns es)" unfolding before_def by auto
    from position_of_before [OF visit_order_distinct b] less.IH [OF _ u]
    obtain p where p: "traversal_path ns es (p @ [u])" by blast
    then have "call_chain ?L None ((p @ [u]) @ [v])"
      using q Some unfolding traversal_path_def
      by (subst call_chain_snoc) simp
    then have "traversal_path ns es ((p @ [u]) @ [v])" by (simp add: traversal_path_def)
    then show ?thesis by blast
  qed
qed

lemma set_traversal_calls: "snd ` set (traversal_calls ns es) = set (visit_order ns es)"
  using traversal_calls_visit_order [of ns es] by (metis list.set_map)

lemmas diamond_eval = example_diamond_nodes_def example_diamond_edges_def

lemmas next_eval = getNextLogicalId_def startsWith_def parseInt_def number_toString_def
  is_js_space_def digit_value_def string_of_nat.simps digit_char_def Let_def example_node_def

section \<open>Claims about the numbering\<close>

text \<open>
  Claim C4, as stated: after the numbering, every process step has a logical id that no
  other node of the graph carries, and the ids increase along each path from a root. This
  fails in three ways. A decision node keeps the logical id it carries (an add-node change
  of a response, or a loaded chart, can give it one), and the numbering hands the same id
  to a process step. In the diamond, \<open>s, d, b, m, c\<close> is a path of edges
  from the root, but the traversal reaches \<open>m\<close> and \<open>c\<close> through \<open>a\<close> before it visits \<open>b\<close>:
  \<open>b\<close> gets \<open>1.1.1.3\<close> and \<open>c\<close>, after it on the path, gets \<open>1.1.1.2\<close>. And
  \<^verbatim>\<open>getNextLogicalId\<close> compares ids as strings, so that \<open>1.1.1.9\<close> is above \<open>1.1.1.10\<close>: on
  ten steps numbered \<open>1.1.1.1\<close> to \<open>1.1.1.10\<close> it returns \<open>1.1.1.10\<close> once more, and
  \<^verbatim>\<open>addSimpleStep\<close> appends a second process step with this id, without renumbering.
\<close>

theorem process_ids_counterexample:
  "\<not> logical_ids_unique_in_graph
       (renumberByFlowSequence
          [example_node ''p1'' ''default'' ''1.1.1.1'',
           example_node ''g'' ''decision'' ''1.1.1.2'',
           example_node ''p2'' ''default'' ''1.1.1.3'']
          [example_edge ''e1'' ''p1'' ''g'' Absent Absent,
           example_edge ''e2'' ''g'' ''p2'' Absent Absent])
   \<and> edge_path example_diamond_nodes example_diamond_edges [''s'', ''d'', ''b'', ''m'', ''c'']
   \<and> map (\<lambda>n. (node_id n, logical_id (data n)))
        (renumberByFlowSequence example_diamond_nodes example_diamond_edges)
       = [(''s'', []), (''d'', []), (''a'', ''1.1.1.1''), (''m'', []), (''c'', ''1.1.1.2''),
          (''b'', ''1.1.1.3'')]
   \<and> \<not> numbers_increase_along
         (renumberByFlowSequence example_diamond_nodes example_diamond_edges)
         [''s'', ''d'', ''b'', ''m'', ''c'']
   \<and> map (\<lambda>n. logical_id (data n)) (renumberByFlowSequence example_ten_steps [])
       = [''1.1.1.1'', ''1.1.1.2'', ''1.1.1.3'', ''1.1.1.4'', ''1.1.1.5'', ''1.1.1.6'',
          ''1.1.1.7'', ''1.1.1.8'', ''1.1.1.9'', ''1.1.1.10'']
   \<and> getNextLogicalId (renumberByFlowSequence example_ten_steps []) = ''1.1.1.10''
   \<and> \<not> distinct (map (\<lambda>n. logical_id (data n)) (filter is_process
         (cur_nodes (addSimpleStep (\<lambda>k. 0) (\<lambda>k. 0) ''Step'' False None
            (initial_chart\<lparr>cur_nodes := renumberByFlowSequence example_ten_steps []\<rparr>)))))"
proof -
  have a: "\<not> logical_ids_unique_in_graph
       (renumberByFlowSequence
          [example_node ''p1'' ''default'' ''1.1.1.1'',
           example_node ''g'' ''decision'' ''1.1.1.2'',
           example_node ''p2'' ''default'' ''1.1.1.3'']
          [example_edge ''e1'' ''p1'' ''g'' Absent Absent,
           example_edge ''e2'' ''g'' ''p2'' Absent Absent])"
    by (simp add: renumber_eval logical_ids_unique_in_graph_def is_process_def)
  have b: "edge_path example_diamond_nodes example_diamond_edges [''s'', ''d'', ''b'', ''m'', ''c'']"
    by (simp add: edge_path_def start_ids_def diamond_eval example_node_def example_edge_def)
  have c: "renumberByFlowSequence example_diamond_nodes example_diamond_edges
      = [example_node ''s'' ''start'' [], example_node ''d'' ''decision'' [],
         example_node ''a'' ''default'' ''1.1.1.1'', example_node ''m'' ''merge'' [],
         example_node ''c'' ''default'' ''1.1.1.2'', example_node ''b'' ''default'' ''1.1.1.3'']"
    by (simp add: renumber_eval diamond_eval)
  have d: "\<not> numbers_increase_along
         (renumberByFlowSequence example_diamond_nodes example_diamond_edges)
         [''s'', ''d'', ''b'', ''m'', ''c'']"
    unfolding c
    by (simp add: numbers_increase_along_def process_number_def position_of_def is_process_def
        keeps_logical_id_def example_node_def)
  have e: "renumberByFlowSequence example_ten_steps []
      = [example_node ''s1'' ''default'' ''1.1.1.1'', example_node ''s2'' ''default'' ''1.1.1.2'',
         example_node ''s3'' ''default'' ''1.1.1.3'', example_node ''s4'' ''default'' ''1.1.1.4'',
         example_node ''s5'' ''default'' ''1.1.1.5'', example_node ''s6'' ''default'' ''1.1.1.6'',
         example_node ''s7'' ''default'' ''1.1.1.7'', example_node ''s8'' ''default'' ''1.1.1.8'',
         example_node ''s9'' ''default'' ''1.1.1.9'', example_node ''s10'' ''default'' ''1.1.1.10'']"
    by code_simp
  have f: "getNextLogicalId (renumberByFlowSequence example_ten_steps []) = ''1.1.1.10''"
    unfolding e by (simp add: next_eval)
  have g0: "cur_nodes (addSimpleStep (\<lambda>k. 0) (\<lambda>k. 0) ''Step'' False None
            (initial_chart\<lparr>cur_nodes := renumberByFlowSequence example_ten_steps []\<rparr>))
      = renumberByFlowSequence example_ten_steps [] @
          [\<lparr>node_id = ''step-0'', node_type = ''default'', position = (100, 100),
            data = \<lparr>label = ''New Step'', data_id = ''step-0'', logical_id = ''1.1.1.10'',
                    owner = ''TBD'', system = ''TBD'', manualOrAutomated = ''manual'',
                    data_type = ''default'', user_modified = False\<rparr>\<rparr>]"
    by (simp add: addSimpleStep_def Let_def f initial_chart_def string_of_nat.simps
        digit_char_def)
  have g: "\<not> distinct (map (\<lambda>n. logical_id (data n)) (filter is_process
         (cur_nodes (addSimpleStep (\<lambda>k. 0) (\<lambda>k. 0) ''Step'' False None
            (initial_chart\<lparr>cur_nodes := renumberByFlowSequence example_ten_steps []\<rparr>)))))"
    unfolding g0
    by (simp add: e is_process_def keeps_logical_id_def example_node_def)
  have c': "map (\<lambda>n. (node_id n, logical_id (data n)))
        (renumberByFlowSequence example_diamond_nodes example_diamond_edges)
       = [(''s'', []), (''d'', []), (''a'', ''1.1.1.1''), (''m'', []), (''c'', ''1.1.1.2''),
          (''b'', ''1.1.1.3'')]"
    unfolding c by (simp add: example_node_def)
  have e': "map (\<lambda>n. logical_id (data n)) (renumberByFlowSequence example_ten_steps [])
       = [''1.1.1.1'', ''1.1.1.2'', ''1.1.1.3'', ''1.1.1.4'', ''1.1.1.5'', ''1.1.1.6'',
          ''1.1.1.7'', ''1.1.1.8'', ''1.1.1.9'', ''1.1.1.10'']"
    unfolding e by (simp add: example_node_def)
  show ?thesis
    by (intro conjI) (rule a b c' d e' f g)+
qed

text \<open>
  Claim C4, amended. For all node and edge lists, in the list that
  \<^verbatim>\<open>renumberByFlowSequence\<close> returns: the logical ids of the process steps are pairwise
  distinct (a node of another kind may carry one of them); the process step at position
  \<open>i\<close> carries \<open>1.1.1.n\<close>, where \<open>n\<close> is one more than the number of process steps before
  it, so a later process step has a larger number. The visiting calls of the traversal
  are made for a start node or along an edge, and the nodes they visit are a prefix of the
  result, in this order. A branch of the traversal is a start node that a top-level call
  visits, followed by nodes each visited by a call made from the visit of the node before
  it. Every node that a call visits is the end of a branch; every branch is a path of
  edges from a start node; and along every branch each node is found in the result, the
  positions strictly increase, and so do the numbers of the process steps. Nothing is
  stated for a path of edges that is no branch, and nothing for the ids that
  \<^verbatim>\<open>getNextLogicalId\<close> hands out after the numbering: the counterexample above covers
  both.
\<close>

theorem process_ids_unique_and_increasing:
  "(let out = renumberByFlowSequence nodes edges;
        pos = position_of (map node_id out);
        calls = traversal_calls nodes edges
    in distinct (map (\<lambda>n. logical_id (data n)) (filter is_process out))
       \<and> (\<forall>i < length out. is_process (out ! i) \<longrightarrow>
              logical_id (data (out ! i)) = ''1.1.1.'' @ string_of_nat (process_number out i))
       \<and> (\<forall>i j. i < j \<and> j < length out \<and> is_process (out ! i) \<longrightarrow>
              process_number out i < process_number out j)
       \<and> map snd calls = take (length calls) (map node_id out)
       \<and> (\<forall>(q, v) \<in> set calls.
              case q of None \<Rightarrow> v \<in> set (start_ids nodes edges)
              | Some u \<Rightarrow> \<exists>e \<in> set edges. source e = u \<and> target e = v)
       \<and> (\<forall>v \<in> set (map snd calls). \<exists>branch. traversal_path nodes edges (branch @ [v]))
       \<and> (traversal_path nodes edges path \<longrightarrow>
              edge_path nodes edges path
              \<and> (\<forall>v \<in> set path. pos v < length out \<and> node_id (out ! pos v) = v)
              \<and> sorted_wrt (<) (map pos path)
              \<and> sorted_wrt (<) (map (\<lambda>v. process_number out (pos v))
                    (filter (\<lambda>v. is_process (out ! pos v)) path))
              \<and> numbers_increase_along out path))"
proof -
  let ?out = "renumberByFlowSequence nodes edges"
  have "distinct (map (\<lambda>n. logical_id (data n)) (filter is_process ?out))"
    unfolding renumber_eq by (rule process_ids_distinct)
  moreover have "\<forall>i < length ?out. is_process (?out ! i) \<longrightarrow>
      logical_id (data (?out ! i)) = ''1.1.1.'' @ string_of_nat (process_number ?out i)"
    unfolding process_number_def using renumber_process_nth by blast
  moreover have "\<forall>i j. i < j \<and> j < length ?out \<and> is_process (?out ! i) \<longrightarrow>
      process_number ?out i < process_number ?out j"
    using process_number_mono [of _ _ ?out] by (simp add: less_imp_le)
  moreover have "\<forall>(q, v) \<in> set (traversal_calls nodes edges).
      case q of None \<Rightarrow> v \<in> set (start_ids nodes edges)
      | Some u \<Rightarrow> \<exists>e \<in> set edges. source e = u \<and> target e = v"
    using traversal_calls_origin [of _ _ nodes edges] by blast
  moreover have "\<forall>v \<in> set (map snd (traversal_calls nodes edges)).
      \<exists>branch. traversal_path nodes edges (branch @ [v])"
    using visited_on_traversal_path [of _ nodes edges]
    by (simp only: set_map set_traversal_calls) blast
  moreover have "traversal_path nodes edges path \<longrightarrow> edge_path nodes edges path"
    using traversal_path_edge_path [of nodes edges path] by blast
  moreover have "traversal_path nodes edges path \<longrightarrow> numbers_increase_along ?out path"
    unfolding numbers_increase_along_def
    using traversal_path_numbers [of nodes edges path] by blast
  ultimately show ?thesis
    unfolding Let_def
    using traversal_path_positions [of nodes edges path]
      traversal_path_numbers [of nodes edges path]
      traversal_calls_prefix [of nodes edges]
    by blast
qed

theorem process_ids_unique_and_increasing_witness:
  "traversal_path
     [example_node ''r'' ''start'' [], example_node ''a'' ''default'' [],
      example_node ''d'' ''decision'' [], example_node ''b'' ''default'' []]
     [example_edge ''e1'' ''r'' ''a'' Absent Absent, example_edge ''e2'' ''a'' ''d'' Absent Absent,
      example_edge ''e3'' ''d'' ''b'' Absent Absent]
     [''r'', ''a'', ''d'', ''b'']
   \<and> map (\<lambda>n. (node_id n, logical_id (data n)))
       (renumberByFlowSequence
         [example_node ''r'' ''start'' [], example_node ''a'' ''default'' [],
      example_node ''d'' ''decision'' [], example_node ''b'' ''default'' []]
         [example_edge ''e1'' ''r'' ''a'' Absent Absent, example_edge ''e2'' ''a'' ''d'' Absent Absent,
      example_edge ''e3'' ''d'' ''b'' Absent Absent])
       = [(''r'', []), (''a'', ''1.1.1.1''), (''d'', []), (''b'', ''1.1.1.2'')]
   \<and> sorted_wrt (<) (map (\<lambda>v. process_number
          (renumberByFlowSequence
             [example_node ''r'' ''start'' [], example_node ''a'' ''default'' [],
      example_node ''d'' ''decision'' [], example_node ''b'' ''default'' []]
             [example_edge ''e1'' ''r'' ''a'' Absent Absent, example_edge ''e2'' ''a'' ''d'' Absent Absent,
      example_edge ''e3'' ''d'' ''b'' Absent Absent])
          (position_of (map node_id
             (renumberByFlowSequence
                [example_node ''r'' ''start'' [], example_node ''a'' ''default'' [],
      example_node ''d'' ''decision'' [], example_node ''b'' ''default'' []]
                [example_edge ''e1'' ''r'' ''a'' Absent Absent, example_edge ''e2'' ''a'' ''d'' Absent Absent,
      example_edge ''e3'' ''d'' ''b'' Absent Absent])) v))
        (filter (\<lambda>v. is_process
          (renumberByFlowSequence
             [example_node ''r'' ''start'' [], example_node ''a'' ''default'' [],
      example_node ''d'' ''decision'' [], example_node ''b'' ''default'' []]
             [example_edge ''e1'' ''r'' ''a'' Absent Absent, example_edge ''e2'' ''a'' ''d'' Absent Absent,
      example_edge ''e3'' ''d'' ''b'' Absent Absent]
           ! position_of (map node_id
               (renumberByFlowSequence
                  [example_node ''r'' ''start'' [], example_node ''a'' ''default'' [],
      example_node ''d'' ''decision'' [], example_node ''b'' ''default'' []]
                  [example_edge ''e1'' ''r'' ''a'' Absent Absent, example_edge ''e2'' ''a'' ''d'' Absent Absent,
      example_edge ''e3'' ''d'' ''b'' Absent Absent])) v))
          [''r'', ''a'', ''d'', ''b'']))"
proof -
  have p: "traversal_path
     [example_node ''r'' ''start'' [], example_node ''a'' ''default'' [],
      example_node ''d'' ''decision'' [], example_node ''b'' ''default'' []]
     [example_edge ''e1'' ''r'' ''a'' Absent Absent, example_edge ''e2'' ''a'' ''d'' Absent Absent,
      example_edge ''e3'' ''d'' ''b'' Absent Absent]
     [''r'', ''a'', ''d'', ''b'']"
    by (simp add: calls_eval)
  have r: "map (\<lambda>n. (node_id n, logical_id (data n)))
       (renumberByFlowSequence
         [example_node ''r'' ''start'' [], example_node ''a'' ''default'' [],
      example_node ''d'' ''decision'' [], example_node ''b'' ''default'' []]
         [example_edge ''e1'' ''r'' ''a'' Absent Absent, example_edge ''e2'' ''a'' ''d'' Absent Absent,
      example_edge ''e3'' ''d'' ''b'' Absent Absent])
       = [(''r'', []), (''a'', ''1.1.1.1''), (''d'', []), (''b'', ''1.1.1.2'')]"
    by (simp add: renumber_eval)
  from p r process_ids_unique_and_increasing
    [of "[example_node ''r'' ''start'' [], example_node ''a'' ''default'' [],
      example_node ''d'' ''decision'' [], example_node ''b'' ''default'' []]"
        "[example_edge ''e1'' ''r'' ''a'' Absent Absent, example_edge ''e2'' ''a'' ''d'' Absent Absent,
      example_edge ''e3'' ''d'' ''b'' Absent Absent]"
        "[''r'', ''a'', ''d'', ''b'']", unfolded Let_def]
  show ?thesis by blast
qed

text \<open>
  Claim C8. Renumbering the result of a renumbering, with the same edges, returns that
  result again: every node keeps the logical id of the first run (and its place in the
  list). This holds for all node and edge lists.
\<close>

theorem renumbering_idempotent:
  "renumberByFlowSequence (renumberByFlowSequence nodes edges) edges
     = renumberByFlowSequence nodes edges"
  by (rule renumber_twice)

text \<open>
  Claim C10, as stated for every node list, fails when two nodes share an id: the node map
  keeps the later one only and the traversal returns a single node for both.
\<close>

theorem renumbering_duplicate_id_counterexample:
  "mset (map without_logical_id
      (renumberByFlowSequence
         [example_node ''n1'' ''default'' [], example_node ''n1'' ''start'' []] []))
   \<noteq> mset (map without_logical_id
         [example_node ''n1'' ''default'' [], example_node ''n1'' ''start'' []])"
proof -
  have "length (renumberByFlowSequence
         [example_node ''n1'' ''default'' [], example_node ''n1'' ''start'' []] []) = 1"
    by (simp add: renumber_eval)
  then have "size (mset (map without_logical_id
      (renumberByFlowSequence
         [example_node ''n1'' ''default'' [], example_node ''n1'' ''start'' []] []))) = 1"
    by simp
  moreover have "size (mset (map without_logical_id
         [example_node ''n1'' ''default'' [], example_node ''n1'' ''start'' []])) = 2"
    by simp
  ultimately show ?thesis by (metis numeral_eq_one_iff semiring_norm(85))
qed

text \<open>
  Claim C10, amended. For every node list with pairwise distinct ids and every edge list,
  the renumbering returns the input nodes, each exactly once, possibly in another order,
  and equal to the input node in every field other than the logical id. (The function
  returns nodes only; the edge list is an argument it reads.)
\<close>

theorem renumbering_keeps_nodes:
  "distinct (map node_id nodes) \<Longrightarrow>
     mset (map without_logical_id (renumberByFlowSequence nodes edges))
       = mset (map without_logical_id nodes)
     \<and> length (renumberByFlowSequence nodes edges) = length nodes"
proof -
  assume d: "distinct (map node_id nodes)"
  have m: "mset (map without_logical_id (renumberByFlowSequence nodes edges))
       = mset (map without_logical_id nodes)"
    by (rule renumber_keeps_nodes [OF d])
  from m have "length (map without_logical_id (renumberByFlowSequence nodes edges))
       = length (map without_logical_id nodes)" by (rule mset_eq_length)
  then have "length (renumberByFlowSequence nodes edges) = length nodes"
    by (simp only: length_map)
  with m show ?thesis by (intro conjI)
qed

theorem renumbering_keeps_nodes_witness:
  "distinct (map node_id [example_node ''a'' ''default'' [], example_node ''r'' ''start'' ''x''])
   \<and> mset (map without_logical_id
        (renumberByFlowSequence [example_node ''a'' ''default'' [], example_node ''r'' ''start'' ''x'']
           [example_edge ''e1'' ''r'' ''a'' Absent Absent]))
     = mset (map without_logical_id [example_node ''a'' ''default'' [], example_node ''r'' ''start'' ''x''])
   \<and> map node_id
        (renumberByFlowSequence [example_node ''a'' ''default'' [], example_node ''r'' ''start'' ''x'']
           [example_edge ''e1'' ''r'' ''a'' Absent Absent]) = [''r'', ''a'']"
proof -
  have d: "distinct (map node_id [example_node ''a'' ''default'' [], example_node ''r'' ''start'' ''x''])"
    by (simp add: example_node_def)
  have o: "map node_id
        (renumberByFlowSequence [example_node ''a'' ''default'' [], example_node ''r'' ''start'' ''x'']
           [example_edge ''e1'' ''r'' ''a'' Absent Absent]) = [''r'', ''a'']"
    by (simp add: renumber_eval)
  from d o renumbering_keeps_nodes [OF d, of "[example_edge ''e1'' ''r'' ''a'' Absent Absent]"]
  show ?thesis by blast
qed

section \<open>Properties of the incremental changes\<close>

lemma apply_changes_append:
  "apply_changes u r (xs @ ys) b = apply_changes u r ys (apply_changes u r xs b)"
  by (simp add: apply_changes_def)

lemma apply_changes_Cons:
  "apply_changes u r (c # cs) b = apply_changes u r cs (apply_change u r b c)"
  by (simp add: apply_changes_def)

lemma apply_changes_Nil [simp]: "apply_changes u r [] b = b"
  by (simp add: apply_changes_def)

lemma add_node_fields:
  "batch_edges (add_node u r spec b) = batch_edges b"
  "warnings (add_node u r spec b) = warnings b"
  "\<exists>n. batch_nodes (add_node u r spec b) = batch_nodes b @ [n]"
  by (simp_all add: add_node_def Let_def split: prod.splits)

lemma update_node_fields:
  "batch_edges (update_node spec b) = batch_edges b"
  "warnings (update_node spec b) = warnings b"
  "uuid_calls (update_node spec b) = uuid_calls b"
  "random_calls (update_node spec b) = random_calls b"
  "length (batch_nodes (update_node spec b)) = length (batch_nodes b)"
  by (simp_all add: update_node_def split: option.splits)

lemma add_edge_fields:
  "batch_nodes (add_edge u spec b) = batch_nodes b"
  "random_calls (add_edge u spec b) = random_calls b"
  "\<exists>rest. batch_edges (add_edge u spec b) = batch_edges b @ rest"
  "\<exists>rest. warnings (add_edge u spec b) = warnings b @ rest"
  by (simp_all add: add_edge_def Let_def)

lemma apply_change_edges_grow:
  "\<exists>rest. batch_edges (apply_change u r b c) = batch_edges b @ rest"
  by (cases c) (simp_all add: add_node_fields update_node_fields add_edge_fields)

lemma apply_change_warnings_grow:
  "\<exists>rest. warnings (apply_change u r b c) = warnings b @ rest"
  by (cases c) (simp_all add: add_node_fields update_node_fields add_edge_fields)

lemma apply_changes_edges_grow:
  "\<exists>rest. batch_edges (apply_changes u r cs b) = batch_edges b @ rest"
proof (induction cs arbitrary: b)
  case Nil
  then show ?case by simp
next
  case (Cons c cs)
  from apply_change_edges_grow [of u r b c] obtain r1
    where r1: "batch_edges (apply_change u r b c) = batch_edges b @ r1" by blast
  from Cons.IH [of "apply_change u r b c"] obtain r2
    where "batch_edges (apply_changes u r cs (apply_change u r b c))
        = batch_edges (apply_change u r b c) @ r2" by blast
  with r1 show ?case by (simp add: apply_changes_Cons)
qed

lemma apply_changes_warnings_grow:
  "\<exists>rest. warnings (apply_changes u r cs b) = warnings b @ rest"
proof (induction cs arbitrary: b)
  case Nil
  then show ?case by simp
next
  case (Cons c cs)
  from apply_change_warnings_grow [of u r b c] obtain r1
    where r1: "warnings (apply_change u r b c) = warnings b @ r1" by blast
  from Cons.IH [of "apply_change u r b c"] obtain r2
    where "warnings (apply_changes u r cs (apply_change u r b c))
        = warnings (apply_change u r b c) @ r2" by blast
  with r1 show ?case by (simp add: apply_changes_Cons)
qed

lemma same_graph_apply_change:
  "same_graph b b' \<Longrightarrow> same_graph (apply_change u r b c) (apply_change u r b' c)"
  by (cases c)
     (auto simp: same_graph_def add_node_def update_node_def add_edge_def Let_def
           split: prod.splits option.splits)

lemma same_graph_apply_changes:
  "same_graph b b' \<Longrightarrow> same_graph (apply_changes u r cs b) (apply_changes u r cs b')"
  by (induction cs arbitrary: b b') (simp_all add: apply_changes_Cons same_graph_apply_change)

lemma add_edge_present:
  assumes "\<exists>n \<in> set (batch_nodes b). node_id n = spec_source spec"
    and "\<exists>n \<in> set (batch_nodes b). node_id n = spec_target spec"
  shows "\<exists>e. batch_edges (add_edge u spec b) = batch_edges b @ [e]
      \<and> source e = spec_source spec \<and> target e = spec_target spec
      \<and> sourceHandle e = Absent \<and> targetHandle e = Absent"
  using assms by (simp add: add_edge_def Let_def)

lemma add_edge_orphan:
  assumes "\<not> ((\<exists>n \<in> set (batch_nodes b). node_id n = spec_source spec)
      \<and> (\<exists>n \<in> set (batch_nodes b). node_id n = spec_target spec))"
  shows "add_edge u spec b = b\<lparr>warnings := warnings b @ [(spec_source spec, spec_target spec)]\<rparr>"
  using assms by (auto simp: add_edge_def Let_def)

lemmas batch_eval =
  apply_changes_def add_node_def update_node_def add_edge_def js_or_def
  example_node_def example_edge_def example_batch_def

lemmas connect_eval =
  onConnect_def onConnect_rules_def onReconnect_def onReconnect_rules_def showErrorMessage_def
  initial_chart_def example_node_def example_edge_def Let_def

lemmas run_eval =
  run_batches_def applyIncrementalChanges_def getLayoutedElements_def edgeWithHandle_def
  saveToHistory_def slice0_def node_offset_def node_dimensions_def initial_chart_def
  user_edited_def example_update_def Let_def

lemma findIndex_None: "findIndex P xs = None \<longleftrightarrow> (\<forall>x \<in> set xs. \<not> P x)"
  by (induction xs) (auto split: option.splits)

lemma findIndex_Some:
  "findIndex P xs = Some i \<Longrightarrow> i < length xs \<and> P (xs ! i) \<and> (\<forall>j < i. \<not> P (xs ! j))"
proof (induction xs arbitrary: i)
  case Nil
  then show ?case by simp
next
  case (Cons x xs)
  show ?case
  proof (cases "P x")
    case True
    with Cons.prems show ?thesis by simp
  next
    case False
    with Cons.prems obtain k where k: "findIndex P xs = Some k" "i = Suc k"
      by (auto split: option.splits)
    from Cons.IH [OF k(1)] False k(2) show ?thesis
      by (auto simp: nth_Cons split: nat.splits)
  qed
qed

lemma findIndex_first:
  "i < length xs \<Longrightarrow> P (xs ! i) \<Longrightarrow> \<forall>j < i. \<not> P (xs ! j) \<Longrightarrow> findIndex P xs = Some i"
proof (induction xs arbitrary: i)
  case Nil
  then show ?case by simp
next
  case (Cons x xs)
  show ?case
  proof (cases i)
    case 0
    with Cons.prems show ?thesis by simp
  next
    case (Suc k)
    with Cons.prems have "\<not> P x" by auto
    moreover have "findIndex P xs = Some k"
      using Cons.prems Suc by (intro Cons.IH) auto
    ultimately show ?thesis using Suc by simp
  qed
qed

lemma kept_update_node:
  assumes "kept i n (batch_nodes b)" and "user_modified (data n)"
  shows "kept i n (batch_nodes (update_node spec b))"
proof (cases "findIndex (\<lambda>m. node_id m = spec_id spec) (batch_nodes b)")
  case None
  with assms show ?thesis by (simp add: update_node_def)
next
  case (Some k)
  show ?thesis
  proof (cases "user_modified (data (batch_nodes b ! k))")
    case True
    with Some assms show ?thesis by (simp add: update_node_def)
  next
    case False
    with assms have "k \<noteq> i" by (auto simp: kept_def)
    with Some False assms show ?thesis by (simp add: update_node_def kept_def)
  qed
qed

lemma kept_apply_change:
  assumes "kept i n (batch_nodes b)" and "user_modified (data n)"
  shows "kept i n (batch_nodes (apply_change u r b c))"
proof (cases c)
  case (Add_node spec)
  from add_node_fields(3) [of u r spec b] obtain m
    where "batch_nodes (add_node u r spec b) = batch_nodes b @ [m]" by blast
  with assms Add_node show ?thesis by (simp add: kept_def nth_append)
next
  case (Update_node spec)
  with kept_update_node [OF assms] show ?thesis by simp
next
  case (Add_edge spec)
  with assms show ?thesis by (simp add: add_edge_fields)
next
  case Other_change
  with assms show ?thesis by simp
qed

lemma kept_apply_changes:
  "kept i n (batch_nodes b) \<Longrightarrow> user_modified (data n) \<Longrightarrow>
     kept i n (batch_nodes (apply_changes u r cs b))"
  by (induction cs arbitrary: b) (simp_all add: apply_changes_Cons kept_apply_change)

lemma kept_layout:
  "kept i n ns \<Longrightarrow> kept i n (fst (getLayoutedElements dagre ns es))"
  by (simp add: getLayoutedElements_def Let_def kept_def)

lemma kept_applyIncrementalChanges:
  assumes "kept i n (cur_nodes st)" and "user_modified (data n)"
  shows "kept i n (cur_nodes (applyIncrementalChanges dagre u r changes st))"
proof (cases "changes = []")
  case True
  with assms show ?thesis by (simp add: applyIncrementalChanges_def)
next
  case False
  let ?b = "apply_changes u r changes
      \<lparr>batch_nodes = cur_nodes st, batch_edges = cur_edges st, warnings = [],
       uuid_calls = 0, random_calls = 0\<rparr>"
  have "kept i n (batch_nodes ?b)"
    by (rule kept_apply_changes) (use assms in simp_all)
  then have "kept i n (fst (getLayoutedElements dagre (batch_nodes ?b) (batch_edges ?b)))"
    by (rule kept_layout)
  with False show ?thesis
    by (simp add: applyIncrementalChanges_def Let_def case_prod_beta)
qed

lemma kept_run_batches:
  "kept i n (cur_nodes st) \<Longrightarrow> user_modified (data n) \<Longrightarrow>
     kept i n (cur_nodes (run_batches dagre u r batches st))"
  unfolding run_batches_def
  by (induction batches arbitrary: st) (simp_all add: kept_applyIncrementalChanges)

section \<open>Claims about the incremental changes\<close>

text \<open>
  Claim C1, as stated: an edge of a batch is appended only if the rules of \<^const>\<open>onConnect\<close>
  accept it. This fails: the loop checks that both ends exist and nothing else. An edge
  that leaves an end node is appended, although \<^const>\<open>onConnect\<close> rejects the same
  connection.
\<close>

theorem add_edge_skips_validator_counterexample:
  "batch_edges (apply_changes (\<lambda>k. ''u'') (\<lambda>k. 0)
      [Add_edge \<lparr>spec_edge_id = ''e1'', spec_source = ''n5'', spec_target = ''n2'',
         spec_condition = []\<rparr>]
      (example_batch [example_node ''n5'' ''end'' [], example_node ''n2'' ''default'' []] []))
     = [example_edge ''e1'' ''n5'' ''n2'' Absent Absent]
   \<and> onConnect (\<lambda>e es. es @ [e]) 0
        (initial_chart\<lparr>cur_nodes := [example_node ''n5'' ''end'' [], example_node ''n2'' ''default'' []]\<rparr>)
        \<lparr>conn_source = ''n5'', conn_target = ''n2'', conn_sourceHandle = Absent,
         conn_targetHandle = Absent\<rparr>
     = showErrorMessage ''End node cannot have outgoing connections''
        (initial_chart\<lparr>cur_nodes := [example_node ''n5'' ''end'' [], example_node ''n2'' ''default'' []]\<rparr>)"
  by (simp add: batch_eval connect_eval)

text \<open>
  Claim C1, amended. In every batch, an add-edge change whose source and target both exist
  among the working nodes (also nodes added earlier in the batch) is appended to the
  working edges, with no check of degree rules, duplicates or handles; a change with a
  missing end is dropped with a warning, and the rest of the batch yields the same nodes
  and edges as without it.
\<close>

theorem add_edge_in_batch:
  "((\<exists>n \<in> set (batch_nodes (apply_changes u r pre b)). node_id n = spec_source spec)
    \<and> (\<exists>n \<in> set (batch_nodes (apply_changes u r pre b)). node_id n = spec_target spec)
    \<longrightarrow> (\<exists>e rest.
          batch_edges (apply_changes u r (pre @ Add_edge spec # post) b)
            = batch_edges (apply_changes u r pre b) @ e # rest
          \<and> source e = spec_source spec \<and> target e = spec_target spec
          \<and> sourceHandle e = Absent \<and> targetHandle e = Absent))
   \<and> (\<not> ((\<exists>n \<in> set (batch_nodes (apply_changes u r pre b)). node_id n = spec_source spec)
         \<and> (\<exists>n \<in> set (batch_nodes (apply_changes u r pre b)). node_id n = spec_target spec))
    \<longrightarrow> batch_nodes (apply_changes u r (pre @ Add_edge spec # post) b)
            = batch_nodes (apply_changes u r (pre @ post) b)
        \<and> batch_edges (apply_changes u r (pre @ Add_edge spec # post) b)
            = batch_edges (apply_changes u r (pre @ post) b)
        \<and> (spec_source spec, spec_target spec)
            \<in> set (warnings (apply_changes u r (pre @ Add_edge spec # post) b)))"
proof -
  let ?b1 = "apply_changes u r pre b"
  have final: "apply_changes u r (pre @ Add_edge spec # post) b
      = apply_changes u r post (add_edge u spec ?b1)"
    by (simp add: apply_changes_append apply_changes_Cons)
  have present: "\<exists>e rest.
          batch_edges (apply_changes u r (pre @ Add_edge spec # post) b)
            = batch_edges ?b1 @ e # rest
          \<and> source e = spec_source spec \<and> target e = spec_target spec
          \<and> sourceHandle e = Absent \<and> targetHandle e = Absent"
    if "\<exists>n \<in> set (batch_nodes ?b1). node_id n = spec_source spec"
      and "\<exists>n \<in> set (batch_nodes ?b1). node_id n = spec_target spec"
  proof -
    from add_edge_present [OF that, of u] obtain e
      where e: "batch_edges (add_edge u spec ?b1) = batch_edges ?b1 @ [e]"
        "source e = spec_source spec" "target e = spec_target spec"
        "sourceHandle e = Absent" "targetHandle e = Absent" by blast
    from apply_changes_edges_grow [of u r post "add_edge u spec ?b1"] obtain rest
      where "batch_edges (apply_changes u r post (add_edge u spec ?b1))
          = batch_edges (add_edge u spec ?b1) @ rest" by blast
    with e(1) have "batch_edges (apply_changes u r (pre @ Add_edge spec # post) b)
        = batch_edges ?b1 @ e # rest" by (simp add: final)
    with e show ?thesis by blast
  qed
  have orphan: "batch_nodes (apply_changes u r (pre @ Add_edge spec # post) b)
            = batch_nodes (apply_changes u r (pre @ post) b)
        \<and> batch_edges (apply_changes u r (pre @ Add_edge spec # post) b)
            = batch_edges (apply_changes u r (pre @ post) b)
        \<and> (spec_source spec, spec_target spec)
            \<in> set (warnings (apply_changes u r (pre @ Add_edge spec # post) b))"
    if "\<not> ((\<exists>n \<in> set (batch_nodes ?b1). node_id n = spec_source spec)
         \<and> (\<exists>n \<in> set (batch_nodes ?b1). node_id n = spec_target spec))"
  proof -
    let ?b2 = "?b1\<lparr>warnings := warnings ?b1 @ [(spec_source spec, spec_target spec)]\<rparr>"
    have dropped: "add_edge u spec ?b1 = ?b2" by (rule add_edge_orphan [OF that])
    have "same_graph ?b2 ?b1" by (simp add: same_graph_def)
    then have "same_graph (apply_changes u r post ?b2) (apply_changes u r post ?b1)"
      by (rule same_graph_apply_changes)
    then have g: "batch_nodes (apply_changes u r post ?b2) = batch_nodes (apply_changes u r post ?b1)"
      "batch_edges (apply_changes u r post ?b2) = batch_edges (apply_changes u r post ?b1)"
      by (simp_all add: same_graph_def)
    from apply_changes_warnings_grow [of u r post ?b2] obtain rest
      where "warnings (apply_changes u r post ?b2) = warnings ?b2 @ rest" by blast
    then have w: "(spec_source spec, spec_target spec) \<in> set (warnings (apply_changes u r post ?b2))"
      by simp
    from g w show ?thesis unfolding final dropped by (simp add: apply_changes_append)
  qed
  from present orphan show ?thesis by blast
qed

theorem add_edge_in_batch_witness:
  "(\<exists>n \<in> set (batch_nodes (apply_changes (\<lambda>k. ''u'') (\<lambda>k. 0)
        [Add_node \<lparr>spec_id = ''n2'', spec_type = ''default'', spec_position = None,
           spec_label = ''Receive Order'', spec_logical_id = [], spec_owner = [],
           spec_system = [], spec_manualOrAutomated = []\<rparr>]
        (example_batch [example_node ''n1'' ''start'' []] []))). node_id n = ''n1'')
   \<and> (\<exists>n \<in> set (batch_nodes (apply_changes (\<lambda>k. ''u'') (\<lambda>k. 0)
        [Add_node \<lparr>spec_id = ''n2'', spec_type = ''default'', spec_position = None,
           spec_label = ''Receive Order'', spec_logical_id = [], spec_owner = [],
           spec_system = [], spec_manualOrAutomated = []\<rparr>]
        (example_batch [example_node ''n1'' ''start'' []] []))). node_id n = ''n2'')
   \<and> map (\<lambda>e. (source e, target e)) (batch_edges (apply_changes (\<lambda>k. ''u'') (\<lambda>k. 0)
        ([Add_node \<lparr>spec_id = ''n2'', spec_type = ''default'', spec_position = None,
           spec_label = ''Receive Order'', spec_logical_id = [], spec_owner = [],
           spec_system = [], spec_manualOrAutomated = []\<rparr>]
         @ Add_edge \<lparr>spec_edge_id = ''e1'', spec_source = ''n1'', spec_target = ''n2'',
             spec_condition = []\<rparr>
         # [Add_edge \<lparr>spec_edge_id = ''e2'', spec_source = ''missing'', spec_target = ''n2'',
             spec_condition = []\<rparr>])
        (example_batch [example_node ''n1'' ''start'' []] []))) = [(''n1'', ''n2'')]"
  using add_edge_in_batch [of "\<lambda>k. ''u''" "\<lambda>k. 0"
      "[Add_node \<lparr>spec_id = ''n2'', spec_type = ''default'', spec_position = None,
           spec_label = ''Receive Order'', spec_logical_id = [], spec_owner = [],
           spec_system = [], spec_manualOrAutomated = []\<rparr>]"
      "example_batch [example_node ''n1'' ''start'' []] []"
      "\<lparr>spec_edge_id = ''e1'', spec_source = ''n1'', spec_target = ''n2'', spec_condition = []\<rparr>"
      "[Add_edge \<lparr>spec_edge_id = ''e2'', spec_source = ''missing'', spec_target = ''n2'',
             spec_condition = []\<rparr>]"]
  by (simp add: batch_eval)

text \<open>
  Claim C2. An update-node change whose id no working node has changes nothing. When the
  first working node with that id is not user-modified its label becomes the label of the
  change, and when it is user-modified nothing changes. Over any number of batches, each
  followed by the layout and stored as the current chart, a user-modified node keeps its
  place, id and label.
\<close>

theorem update_node_respects_user_edits:
  "((\<forall>n \<in> set (batch_nodes b). node_id n \<noteq> spec_id spec) \<longrightarrow>
       apply_change uuid rnd b (Update_node spec) = b)
   \<and> (i < length (batch_nodes b) \<and> node_id (batch_nodes b ! i) = spec_id spec
       \<and> (\<forall>j < i. node_id (batch_nodes b ! j) \<noteq> spec_id spec) \<longrightarrow>
       (if user_modified (data (batch_nodes b ! i))
        then apply_change uuid rnd b (Update_node spec) = b
        else apply_change uuid rnd b (Update_node spec)
               = b\<lparr>batch_nodes := (batch_nodes b)[i :=
                     (batch_nodes b ! i)\<lparr>data :=
                        (data (batch_nodes b ! i))\<lparr>label := spec_label spec\<rparr>\<rparr>]\<rparr>
             \<and> label (data (batch_nodes (apply_change uuid rnd b (Update_node spec)) ! i))
                 = spec_label spec))
   \<and> (k < length (cur_nodes st) \<and> user_modified (data (cur_nodes st ! k)) \<longrightarrow>
       k < length (cur_nodes (run_batches dagre uuid rnd batches st))
       \<and> node_id (cur_nodes (run_batches dagre uuid rnd batches st) ! k)
           = node_id (cur_nodes st ! k)
       \<and> label (data (cur_nodes (run_batches dagre uuid rnd batches st) ! k))
           = label (data (cur_nodes st ! k))
       \<and> user_modified (data (cur_nodes (run_batches dagre uuid rnd batches st) ! k)))"
proof -
  have absent: "apply_change uuid rnd b (Update_node spec) = b"
    if "\<forall>n \<in> set (batch_nodes b). node_id n \<noteq> spec_id spec"
  proof -
    from that have "findIndex (\<lambda>n. node_id n = spec_id spec) (batch_nodes b) = None"
      by (simp add: findIndex_None)
    then show ?thesis by (simp add: update_node_def)
  qed
  have found: "if user_modified (data (batch_nodes b ! i))
        then apply_change uuid rnd b (Update_node spec) = b
        else apply_change uuid rnd b (Update_node spec)
               = b\<lparr>batch_nodes := (batch_nodes b)[i :=
                     (batch_nodes b ! i)\<lparr>data :=
                        (data (batch_nodes b ! i))\<lparr>label := spec_label spec\<rparr>\<rparr>]\<rparr>
             \<and> label (data (batch_nodes (apply_change uuid rnd b (Update_node spec)) ! i))
                 = spec_label spec"
    if "i < length (batch_nodes b)" and "node_id (batch_nodes b ! i) = spec_id spec"
      and "\<forall>j < i. node_id (batch_nodes b ! j) \<noteq> spec_id spec"
  proof -
    from that have "findIndex (\<lambda>n. node_id n = spec_id spec) (batch_nodes b) = Some i"
      by (intro findIndex_first) simp_all
    with that(1) show ?thesis by (simp add: update_node_def)
  qed
  have repeated: "k < length (cur_nodes (run_batches dagre uuid rnd batches st))
       \<and> node_id (cur_nodes (run_batches dagre uuid rnd batches st) ! k)
           = node_id (cur_nodes st ! k)
       \<and> label (data (cur_nodes (run_batches dagre uuid rnd batches st) ! k))
           = label (data (cur_nodes st ! k))
       \<and> user_modified (data (cur_nodes (run_batches dagre uuid rnd batches st) ! k))"
    if "k < length (cur_nodes st)" and "user_modified (data (cur_nodes st ! k))"
  proof -
    from that(1) have "kept k (cur_nodes st ! k) (cur_nodes st)" by (simp add: kept_def)
    from kept_run_batches [OF this that(2), of dagre uuid rnd batches] that(2)
    show ?thesis by (simp add: kept_def)
  qed
  from absent found repeated show ?thesis by blast
qed

theorem update_node_respects_user_edits_witness:
  "apply_change (\<lambda>k. ''u'') (\<lambda>k. 0)
      (example_batch [user_edited (example_node ''n1'' ''default'' []),
                      example_node ''n2'' ''default'' []] [])
      (example_update ''zz'' ''AI'')
     = example_batch [user_edited (example_node ''n1'' ''default'' []),
                      example_node ''n2'' ''default'' []] []
   \<and> map (\<lambda>n. label (data n)) (batch_nodes (apply_change (\<lambda>k. ''u'') (\<lambda>k. 0)
      (example_batch [user_edited (example_node ''n1'' ''default'' []),
                      example_node ''n2'' ''default'' []] [])
      (example_update ''n2'' ''AI''))) = [''n1'', ''AI'']
   \<and> map (\<lambda>n. label (data n)) (batch_nodes (apply_change (\<lambda>k. ''u'') (\<lambda>k. 0)
      (example_batch [user_edited (example_node ''n1'' ''default'' []),
                      example_node ''n2'' ''default'' []] [])
      (example_update ''n1'' ''AI''))) = [''n1'', ''n2'']
   \<and> map (\<lambda>n. label (data n)) (cur_nodes (run_batches (\<lambda>ns es i. (0, 0)) (\<lambda>k. ''u'') (\<lambda>k. 0)
      [[example_update ''n1'' ''AI'', example_update ''n2'' ''AI''],
       [example_update ''n1'' ''AI again'']]
      (initial_chart\<lparr>cur_nodes := [user_edited (example_node ''n1'' ''default'' []),
                                      example_node ''n2'' ''default'' []]\<rparr>)))
     = [''n1'', ''AI'']"
  using
    update_node_respects_user_edits [where b = "example_batch [user_edited (example_node ''n1'' ''default'' []),
                      example_node ''n2'' ''default'' []] []"
      and spec = "\<lparr>spec_id = ''zz'', spec_type = [], spec_position = None, spec_label = ''AI'',
       spec_logical_id = [], spec_owner = [], spec_system = [], spec_manualOrAutomated = []\<rparr>"
      and uuid = "\<lambda>k. ''u''" and rnd = "\<lambda>k. 0" and i = 0 and k = 0
      and st = "initial_chart\<lparr>cur_nodes := [user_edited (example_node ''n1'' ''default'' []),
                                      example_node ''n2'' ''default'' []]\<rparr>"
      and dagre = "\<lambda>ns es i. (0, 0)"
      and batches = "[[example_update ''n1'' ''AI'', example_update ''n2'' ''AI''],
       [example_update ''n1'' ''AI again'']]"]
    update_node_respects_user_edits [where b = "example_batch [user_edited (example_node ''n1'' ''default'' []),
                      example_node ''n2'' ''default'' []] []"
      and spec = "\<lparr>spec_id = ''n2'', spec_type = [], spec_position = None, spec_label = ''AI'',
       spec_logical_id = [], spec_owner = [], spec_system = [], spec_manualOrAutomated = []\<rparr>"
      and uuid = "\<lambda>k. ''u''" and rnd = "\<lambda>k. 0" and i = 1 and k = 0
      and st = "initial_chart\<lparr>cur_nodes := [user_edited (example_node ''n1'' ''default'' []),
                                      example_node ''n2'' ''default'' []]\<rparr>"
      and dagre = "\<lambda>ns es i. (0, 0)"
      and batches = "[[example_update ''n1'' ''AI'', example_update ''n2'' ''AI''],
       [example_update ''n1'' ''AI again'']]"]
    update_node_respects_user_edits [where b = "example_batch [user_edited (example_node ''n1'' ''default'' []),
                      example_node ''n2'' ''default'' []] []"
      and spec = "\<lparr>spec_id = ''n1'', spec_type = [], spec_position = None, spec_label = ''AI'',
       spec_logical_id = [], spec_owner = [], spec_system = [], spec_manualOrAutomated = []\<rparr>"
      and uuid = "\<lambda>k. ''u''" and rnd = "\<lambda>k. 0" and i = 0 and k = 0
      and st = "initial_chart\<lparr>cur_nodes := [user_edited (example_node ''n1'' ''default'' []),
                                      example_node ''n2'' ''default'' []]\<rparr>"
      and dagre = "\<lambda>ns es i. (0, 0)"
      and batches = "[[example_update ''n1'' ''AI'', example_update ''n2'' ''AI''],
       [example_update ''n1'' ''AI again'']]"]
  by (simp add: batch_eval run_eval)

text \<open>
  Claim C3, as stated: an add-node change whose id exists is treated as an update, so no
  second node with that id appears. This fails: the loop always pushes a new node.
\<close>

theorem add_node_existing_id_counterexample:
  "map node_id (batch_nodes (apply_change (\<lambda>k. ''u'') (\<lambda>k. 0)
      (example_batch [example_node ''n1'' ''default'' []] [])
      (Add_node \<lparr>spec_id = ''n1'', spec_type = ''default'', spec_position = Some (0, 0),
         spec_label = ''Again'', spec_logical_id = [], spec_owner = [],
         spec_system = [], spec_manualOrAutomated = []\<rparr>))) = [''n1'', ''n1'']
   \<and> map node_id (batch_nodes (apply_change (\<lambda>k. ''u'') (\<lambda>k. 0)
      (example_batch [example_node ''n1'' ''default'' []] [])
      (Update_node \<lparr>spec_id = ''n1'', spec_type = ''default'', spec_position = Some (0, 0),
         spec_label = ''Again'', spec_logical_id = [], spec_owner = [],
         spec_system = [], spec_manualOrAutomated = []\<rparr>))) = [''n1'']"
  by (simp add: batch_eval)

text \<open>
  Claim C3, amended. An add-node change always appends one new node to the working nodes,
  whether or not its id exists already: with the id of the change (or a fresh uuid), its
  label, owner and system defaulting to TBD, automation defaulting to manual, and the
  user-modified flag false. The edges stay as they are.
\<close>

theorem add_node_appends_with_defaults:
  "\<exists>n. batch_nodes (apply_change uuid rnd b (Add_node spec)) = batch_nodes b @ [n]
     \<and> node_id n = (if spec_id spec \<noteq> [] then spec_id spec else uuid (uuid_calls b))
     \<and> label (data n) = spec_label spec
     \<and> owner (data n) = (if spec_owner spec = [] then ''TBD'' else spec_owner spec)
     \<and> system (data n) = (if spec_system spec = [] then ''TBD'' else spec_system spec)
     \<and> manualOrAutomated (data n)
         = (if spec_manualOrAutomated spec = [] then ''manual'' else spec_manualOrAutomated spec)
     \<and> user_modified (data n) = False
     \<and> batch_edges (apply_change uuid rnd b (Add_node spec)) = batch_edges b"
  by (simp add: add_node_def Let_def js_or_def split: prod.splits option.splits)

theorem add_node_appends_with_defaults_witness:
  "map (\<lambda>n. (node_id n, label (data n), owner (data n), system (data n),
          manualOrAutomated (data n), user_modified (data n)))
     (batch_nodes (apply_change (\<lambda>k. ''u'') (\<lambda>k. 0)
        (example_batch [example_node ''n1'' ''default'' []] [])
        (Add_node \<lparr>spec_id = ''n1'', spec_type = ''default'', spec_position = Some (0, 0),
           spec_label = ''Again'', spec_logical_id = [], spec_owner = [],
           spec_system = ''SAP'', spec_manualOrAutomated = []\<rparr>)))
   = [(''n1'', ''n1'', ''TBD'', ''TBD'', ''manual'', False),
      (''n1'', ''Again'', ''TBD'', ''SAP'', ''manual'', False)]"
  using add_node_appends_with_defaults [of "\<lambda>k. ''u''" "\<lambda>k. 0"
      "example_batch [example_node ''n1'' ''default'' []] []"
      "\<lparr>spec_id = ''n1'', spec_type = ''default'', spec_position = Some (0, 0),
           spec_label = ''Again'', spec_logical_id = [], spec_owner = [],
           spec_system = ''SAP'', spec_manualOrAutomated = []\<rparr>"]
  by (simp add: batch_eval)

section \<open>Properties of connecting\<close>

lemma showErrorMessage_keeps [simp]:
  "cur_nodes (showErrorMessage m st) = cur_nodes st"
  "cur_edges (showErrorMessage m st) = cur_edges st"
  "history (showErrorMessage m st) = history st"
  "historyIndex (showErrorMessage m st) = historyIndex st"
  "errorMessage (showErrorMessage m st) = m"
  "showError (showErrorMessage m st) = True"
  by (simp_all add: showErrorMessage_def)

lemma find_Some_iff_ex: "(\<exists>x. find P xs = Some x) \<longleftrightarrow> (\<exists>x \<in> set xs. P x)"
  by (induction xs) auto

lemma onConnect_missing_endpoint:
  "\<not> ((\<exists>n \<in> set (cur_nodes st). node_id n = conn_source params)
      \<and> (\<exists>n \<in> set (cur_nodes st). node_id n = conn_target params))
   \<Longrightarrow> onConnect addEdge now st params = st"
proof -
  assume a: "\<not> ((\<exists>n \<in> set (cur_nodes st). node_id n = conn_source params)
      \<and> (\<exists>n \<in> set (cur_nodes st). node_id n = conn_target params))"
  then have "find (\<lambda>n. node_id n = conn_source params) (cur_nodes st) = None
      \<or> find (\<lambda>n. node_id n = conn_target params) (cur_nodes st) = None"
    by (auto simp: find_None_iff)
  then show ?thesis by (auto simp: onConnect_def split: option.splits)
qed

lemma onConnect_duplicate:
  assumes "\<exists>n \<in> set (cur_nodes st). node_id n = conn_source params"
    and "\<exists>n \<in> set (cur_nodes st). node_id n = conn_target params"
    and "\<exists>e \<in> set (cur_edges st).
        source e = conn_source params \<and> target e = conn_target params \<and>
        sourceHandle e = conn_sourceHandle params \<and> targetHandle e = conn_targetHandle params"
  shows "onConnect addEdge now st params
     = showErrorMessage ''Connection already exists at this anchor point'' st"
proof -
  from assms(1) obtain s where s: "find (\<lambda>n. node_id n = conn_source params) (cur_nodes st) = Some s"
    using find_Some_iff_ex [of "\<lambda>n. node_id n = conn_source params" "cur_nodes st"] by blast
  from assms(2) obtain t where t: "find (\<lambda>n. node_id n = conn_target params) (cur_nodes st) = Some t"
    using find_Some_iff_ex [of "\<lambda>n. node_id n = conn_target params" "cur_nodes st"] by blast
  from assms(3) have "find (\<lambda>e.
        source e = conn_source params \<and> target e = conn_target params \<and>
        sourceHandle e = conn_sourceHandle params \<and> targetHandle e = conn_targetHandle params)
      (cur_edges st) \<noteq> None"
    by (auto simp: find_None_iff)
  with s t show ?thesis by (simp add: onConnect_def Let_def)
qed

lemma onConnect_handle_in_use:
  assumes "\<exists>n \<in> set (cur_nodes st). node_id n = conn_source params"
    and "\<exists>n \<in> set (cur_nodes st). node_id n = conn_target params"
    and "\<not> (\<exists>e \<in> set (cur_edges st).
        source e = conn_source params \<and> target e = conn_target params \<and>
        sourceHandle e = conn_sourceHandle params \<and> targetHandle e = conn_targetHandle params)"
    and "(\<exists>e \<in> set (cur_edges st).
          source e = conn_source params \<and> sourceHandle e = conn_sourceHandle params)
       \<or> (\<exists>e \<in> set (cur_edges st).
          target e = conn_target params \<and> targetHandle e = conn_targetHandle params)"
  shows "onConnect addEdge now st params
     = showErrorMessage ''This connector point is already in use'' st"
proof -
  from assms(1) obtain s where s: "find (\<lambda>n. node_id n = conn_source params) (cur_nodes st) = Some s"
    using find_Some_iff_ex [of "\<lambda>n. node_id n = conn_source params" "cur_nodes st"] by blast
  from assms(2) obtain t where t: "find (\<lambda>n. node_id n = conn_target params) (cur_nodes st) = Some t"
    using find_Some_iff_ex [of "\<lambda>n. node_id n = conn_target params" "cur_nodes st"] by blast
  from assms(3) have "find (\<lambda>e.
        source e = conn_source params \<and> target e = conn_target params \<and>
        sourceHandle e = conn_sourceHandle params \<and> targetHandle e = conn_targetHandle params)
      (cur_edges st) = None"
    by (auto simp: find_None_iff)
  with s t assms(4) show ?thesis by (auto simp: onConnect_def Let_def)
qed

section \<open>Claims about connecting and reconnecting\<close>

text \<open>
  Claim C5. An edge into a merge node is refused because of the edges the merge node
  already has, when the source is a start node: with one incoming edge at the merge node
  \<^const>\<open>onConnect\<close> answers that a start node cannot have incoming connections, and with none
  it adds the edge.
\<close>

theorem onConnect_start_to_merge_rejected:
  "onConnect addEdge now
      (initial_chart\<lparr>cur_nodes := [example_node ''s'' ''start'' [],
                                      example_node ''p'' ''default'' [],
                                      example_node ''m'' ''merge'' []],
                     cur_edges := [example_edge ''e1'' ''p'' ''m'' Null (Port ''top'')]\<rparr>)
      \<lparr>conn_source = ''s'', conn_target = ''m'', conn_sourceHandle = Null,
       conn_targetHandle = Port ''left''\<rparr>
     = showErrorMessage ''Start node cannot have incoming connections''
        (initial_chart\<lparr>cur_nodes := [example_node ''s'' ''start'' [],
                                      example_node ''p'' ''default'' [],
                                      example_node ''m'' ''merge'' []],
                     cur_edges := [example_edge ''e1'' ''p'' ''m'' Null (Port ''top'')]\<rparr>)
   \<and> cur_edges (onConnect addEdge now
      (initial_chart\<lparr>cur_nodes := [example_node ''s'' ''start'' [],
                                      example_node ''p'' ''default'' [],
                                      example_node ''m'' ''merge'' []],
                     cur_edges := []\<rparr>)
      \<lparr>conn_source = ''s'', conn_target = ''m'', conn_sourceHandle = Null,
       conn_targetHandle = Port ''left''\<rparr>)
     = addEdge \<lparr>edge_id = [], source = ''s'', target = ''m'', sourceHandle = Null,
                targetHandle = Port ''left'', edge_label = []\<rparr> []"
  by (simp add: connect_eval saveToHistory_def)

text \<open>
  Claim C6. When an edge with the same source, source handle, target and target handle
  exists, or the source handle is in use by an edge from the same source, or the target
  handle is in use by an edge into the same target, \<^const>\<open>onConnect\<close> leaves the nodes, the
  edges and the history as they are; when both end nodes exist it shows the message for
  the duplicate in the first case and the message for the used handle otherwise.
\<close>

theorem onConnect_rejects_duplicate_and_used_handle:
  "((\<exists>e \<in> set (cur_edges st).
        source e = conn_source params \<and> target e = conn_target params \<and>
        sourceHandle e = conn_sourceHandle params \<and> targetHandle e = conn_targetHandle params)
    \<or> (\<exists>e \<in> set (cur_edges st).
          source e = conn_source params \<and> sourceHandle e = conn_sourceHandle params)
    \<or> (\<exists>e \<in> set (cur_edges st).
          target e = conn_target params \<and> targetHandle e = conn_targetHandle params)
    \<longrightarrow> cur_nodes (onConnect addEdge now st params) = cur_nodes st
      \<and> cur_edges (onConnect addEdge now st params) = cur_edges st
      \<and> history (onConnect addEdge now st params) = history st
      \<and> historyIndex (onConnect addEdge now st params) = historyIndex st)
   \<and> ((\<exists>n \<in> set (cur_nodes st). node_id n = conn_source params)
      \<and> (\<exists>n \<in> set (cur_nodes st). node_id n = conn_target params)
      \<longrightarrow>
        ((\<exists>e \<in> set (cur_edges st).
            source e = conn_source params \<and> target e = conn_target params \<and>
            sourceHandle e = conn_sourceHandle params \<and> targetHandle e = conn_targetHandle params)
         \<longrightarrow> onConnect addEdge now st params
               = showErrorMessage ''Connection already exists at this anchor point'' st)
      \<and> (\<not> (\<exists>e \<in> set (cur_edges st).
            source e = conn_source params \<and> target e = conn_target params \<and>
            sourceHandle e = conn_sourceHandle params \<and> targetHandle e = conn_targetHandle params)
          \<and> ((\<exists>e \<in> set (cur_edges st).
                source e = conn_source params \<and> sourceHandle e = conn_sourceHandle params)
             \<or> (\<exists>e \<in> set (cur_edges st).
                target e = conn_target params \<and> targetHandle e = conn_targetHandle params))
         \<longrightarrow> onConnect addEdge now st params
               = showErrorMessage ''This connector point is already in use'' st))"
proof -
  let ?ends = "(\<exists>n \<in> set (cur_nodes st). node_id n = conn_source params)
      \<and> (\<exists>n \<in> set (cur_nodes st). node_id n = conn_target params)"
  let ?dup = "\<exists>e \<in> set (cur_edges st).
        source e = conn_source params \<and> target e = conn_target params \<and>
        sourceHandle e = conn_sourceHandle params \<and> targetHandle e = conn_targetHandle params"
  let ?used = "(\<exists>e \<in> set (cur_edges st).
          source e = conn_source params \<and> sourceHandle e = conn_sourceHandle params)
       \<or> (\<exists>e \<in> set (cur_edges st).
          target e = conn_target params \<and> targetHandle e = conn_targetHandle params)"
  let ?r = "onConnect addEdge now st params"
  have d: "?r = showErrorMessage ''Connection already exists at this anchor point'' st"
    if "?ends" "?dup"
    using that by (intro onConnect_duplicate) blast+
  have u: "?r = showErrorMessage ''This connector point is already in use'' st"
    if "?ends" "\<not> ?dup" "?used"
    using that by (intro onConnect_handle_in_use) blast+
  have m: "?r = st" if "\<not> ?ends"
    using that by (rule onConnect_missing_endpoint)
  have unchanged: "cur_nodes ?r = cur_nodes st \<and> cur_edges ?r = cur_edges st
      \<and> history ?r = history st \<and> historyIndex ?r = historyIndex st"
    if "?dup \<or> ?used"
  proof (cases ?ends)
    case False
    from m [OF False] show ?thesis by simp
  next
    case True
    show ?thesis
    proof (cases ?dup)
      case True
      from d [OF \<open>?ends\<close> True] show ?thesis by simp
    next
      case False
      with that have ?used by blast
      from u [OF \<open>?ends\<close> False this] show ?thesis by simp
    qed
  qed
  from unchanged d u show ?thesis by blast
qed

theorem onConnect_rejects_duplicate_and_used_handle_witness:
  "onConnect (\<lambda>e es. es @ [e]) 0
      (initial_chart\<lparr>cur_nodes := [example_node ''p1'' ''default'' [], example_node ''m'' ''merge'' []],
                     cur_edges := [example_edge ''e1'' ''p1'' ''m'' Null (Port ''left'')]\<rparr>)
      \<lparr>conn_source = ''p1'', conn_target = ''m'', conn_sourceHandle = Null,
       conn_targetHandle = Port ''left''\<rparr>
     = showErrorMessage ''Connection already exists at this anchor point''
        (initial_chart\<lparr>cur_nodes := [example_node ''p1'' ''default'' [], example_node ''m'' ''merge'' []],
                     cur_edges := [example_edge ''e1'' ''p1'' ''m'' Null (Port ''left'')]\<rparr>)
   \<and> onConnect (\<lambda>e es. es @ [e]) 0
      (initial_chart\<lparr>cur_nodes := [example_node ''p1'' ''default'' [], example_node ''m'' ''merge'' []],
                     cur_edges := [example_edge ''e1'' ''p1'' ''m'' Null (Port ''left'')]\<rparr>)
      \<lparr>conn_source = ''p1'', conn_target = ''m'', conn_sourceHandle = Null,
       conn_targetHandle = Port ''top''\<rparr>
     = showErrorMessage ''This connector point is already in use''
        (initial_chart\<lparr>cur_nodes := [example_node ''p1'' ''default'' [], example_node ''m'' ''merge'' []],
                     cur_edges := [example_edge ''e1'' ''p1'' ''m'' Null (Port ''left'')]\<rparr>)"
  using
    onConnect_rejects_duplicate_and_used_handle [where addEdge = "\<lambda>e es. es @ [e]" and now = 0
      and st = "initial_chart\<lparr>cur_nodes := [example_node ''p1'' ''default'' [], example_node ''m'' ''merge'' []],
                     cur_edges := [example_edge ''e1'' ''p1'' ''m'' Null (Port ''left'')]\<rparr>"
      and params = "\<lparr>conn_source = ''p1'', conn_target = ''m'', conn_sourceHandle = Null,
       conn_targetHandle = Port ''left''\<rparr>"]
    onConnect_rejects_duplicate_and_used_handle [where addEdge = "\<lambda>e es. es @ [e]" and now = 0
      and st = "initial_chart\<lparr>cur_nodes := [example_node ''p1'' ''default'' [], example_node ''m'' ''merge'' []],
                     cur_edges := [example_edge ''e1'' ''p1'' ''m'' Null (Port ''left'')]\<rparr>"
      and params = "\<lparr>conn_source = ''p1'', conn_target = ''m'', conn_sourceHandle = Null,
       conn_targetHandle = Port ''top''\<rparr>"]
  by (simp add: initial_chart_def example_node_def example_edge_def)

text \<open>
  Claim C7. \<^const>\<open>onReconnect\<close> accepts and commits a move of an edge onto a target handle
  that another edge into the same node uses, while \<^const>\<open>onConnect\<close>, on the edges without
  the moved one, rejects the same connection because the handle is in use.
\<close>

theorem onReconnect_skips_handle_check:
  "onReconnect reconnectEdge
      (initial_chart\<lparr>cur_nodes := [example_node ''a'' ''default'' [],
                                      example_node ''b'' ''default'' [],
                                      example_node ''c'' ''default'' [],
                                      example_node ''m'' ''merge'' []],
                     cur_edges := [example_edge ''e1'' ''a'' ''m'' Null (Port ''left''),
                                   example_edge ''e2'' ''b'' ''c'' Null Null]\<rparr>)
      (example_edge ''e2'' ''b'' ''c'' Null Null)
      \<lparr>conn_source = ''b'', conn_target = ''m'', conn_sourceHandle = Null,
       conn_targetHandle = Port ''left''\<rparr>
     = initial_chart\<lparr>cur_nodes := [example_node ''a'' ''default'' [],
                                      example_node ''b'' ''default'' [],
                                      example_node ''c'' ''default'' [],
                                      example_node ''m'' ''merge'' []],
                     cur_edges := reconnectEdge (example_edge ''e2'' ''b'' ''c'' Null Null)
                        \<lparr>conn_source = ''b'', conn_target = ''m'', conn_sourceHandle = Null,
                         conn_targetHandle = Port ''left''\<rparr>
                        [example_edge ''e1'' ''a'' ''m'' Null (Port ''left''),
                         example_edge ''e2'' ''b'' ''c'' Null Null]\<rparr>
   \<and> onConnect addEdge now
      (initial_chart\<lparr>cur_nodes := [example_node ''a'' ''default'' [],
                                      example_node ''b'' ''default'' [],
                                      example_node ''c'' ''default'' [],
                                      example_node ''m'' ''merge'' []],
                     cur_edges := [example_edge ''e1'' ''a'' ''m'' Null (Port ''left'')]\<rparr>)
      \<lparr>conn_source = ''b'', conn_target = ''m'', conn_sourceHandle = Null,
       conn_targetHandle = Port ''left''\<rparr>
     = showErrorMessage ''This connector point is already in use''
        (initial_chart\<lparr>cur_nodes := [example_node ''a'' ''default'' [],
                                      example_node ''b'' ''default'' [],
                                      example_node ''c'' ''default'' [],
                                      example_node ''m'' ''merge'' []],
                     cur_edges := [example_edge ''e1'' ''a'' ''m'' Null (Port ''left'')]\<rparr>)"
  by (simp add: connect_eval)

end
